theory Spec2Isabelle
  imports Main "HOL-Library.Word"
begin

section \<open>sbench: a write / purge / read disk benchmark\<close>

text \<open>
  The program (\<^verbatim>\<open>sbench.cpp\<close>) parses its command line, writes a file of random
  data buffer by buffer, runs the system's cache purge command, reads the file back and
  removes it when \<^verbatim>\<open>main\<close> returns. Everything the program does to the outside is
  made explicit here: the file system is a map from paths to byte lists, every system call
  whose result the program cannot decide (opening, writing, flushing, closing, the purge
  command, \<^verbatim>\<open>fcntl\<close>, reading, unlinking) takes its result from an environment
  record, and each call is logged in a trace. Standard output carries only progress text
  and timings (floating point) and is left out; the diagnostic stream is a list of messages.

  The platform is the one the program is written for (64-bit macOS): \<^verbatim>\<open>size_t\<close>
  is a 64-bit word and \<^verbatim>\<open>long\<close> a 64-bit signed integer. No other process
  touches the output file. \<open>doWrite\<close>, \<open>doRead\<close> and \<open>main\<close> describe the runs
  in which the allocation of the buffers and the entropy source succeed;
  \<open>doWrite_exn\<close>, \<open>doRead_exn\<close> and \<open>main_exn\<close> add the runs in which one of
  them throws.
\<close>

subsection \<open>Constants and the context\<close>

type_synonym byte = "8 word"
type_synonym size_t = "64 word"

definition MB :: size_t where
  "MB = 1024 * 1024"

definition BUFSZ :: size_t where
  "BUFSZ = MB"

record Context =
  outfile :: string
  mb :: size_t
  valid :: bool
  outfileCreated :: bool

definition Context_default :: Context where
  "Context_default = \<lparr>outfile = [], mb = 2 * 1024, valid = False, outfileCreated = False\<rparr>"

subsection \<open>Diagnostics, events and the world\<close>

datatype parse_error = InvalidArgument | OutOfRange | NotPositive | ExtraChars

text \<open>What the program writes to \<^verbatim>\<open>std::cerr\<close>, one constructor per kind of message.\<close>

datatype msg =
    MsgBanner
  | MsgUsage string
  | MsgBlank
  | MsgParseFail parse_error
  | MsgCaught
  | MsgFailedRemove string
  | MsgRemoved string
  | MsgPurgeFailed int
  | MsgErrOpenRead
  | MsgFcntl int
  | MsgErrReading
  | MsgInvalidSize size_t
  | MsgErrWrite string string

text \<open>
  The calls that reach the file system or another process. \<open>EvOpenW\<close>, \<open>EvFlush\<close>,
  \<open>EvCloseW\<close>, \<open>EvOpenR\<close> and \<open>EvUnlink\<close> carry whether the call succeeded;
  \<open>EvWrite\<close> and \<open>EvRead\<close> carry the bytes transferred (\<open>EvRead []\<close> is end of
  file); \<open>EvPurge\<close> and \<open>EvNoCache\<close> carry the value the call returned.
\<close>

datatype event =
    EvOpenW bool
  | EvWrite "byte list"
  | EvWriteFail
  | EvFlush bool
  | EvCloseW bool
  | EvPurge int
  | EvOpenR bool
  | EvNoCache int
  | EvRead "byte list"
  | EvReadErr
  | EvCloseR
  | EvUnlink bool

text \<open>
  The places where the program either reads the flag \<^verbatim>\<open>interrupted\<close> or makes a
  call. A signal is delivered between two such places; \<open>signal_at e pt\<close> says that one
  arrives after the previous place and before \<open>pt\<close> takes effect (for a call: before
  the call returns; for a flag check: before the flag is read). The places start at the
  open for writing: \<^verbatim>\<open>main\<close> installs the handler after the arguments are parsed,
  and a signal that arrives earlier ends the process by its default action.
\<close>

datatype point =
    PWOpen
  | PWCheck nat
  | PWWrite nat
  | PWFlush
  | PWClose
  | PWFinal
  | PPurge
  | PROpen
  | PNoCache
  | PRead nat
  | PRCheck nat
  | PRFinal
  | PUnlink

record env =
  signal_at :: "point \<Rightarrow> bool"
  rnd :: "nat \<Rightarrow> 64 word"
  wopen_fails :: bool
  write_fails :: "nat \<Rightarrow> bool"
  flush_fails :: bool
  close_fails :: bool
  purge_res :: int
  ropen_fails :: bool
  fcntl_res :: int
  read_fails :: "nat \<Rightarrow> bool"
  unlink_fails :: bool

record world =
  fs :: "string \<rightharpoonup> byte list"
  interrupted :: bool
  trace :: "event list"
  cerr :: "msg list"

definition init_world :: "(string \<rightharpoonup> byte list) \<Rightarrow> world" where
  "init_world f = \<lparr>fs = f, interrupted = False, trace = [], cerr = []\<rparr>"

definition sigHandler :: "world \<Rightarrow> world" where
  "sigHandler w = w\<lparr>interrupted := True, cerr := cerr w @ [MsgCaught]\<rparr>"

definition step :: "env \<Rightarrow> point \<Rightarrow> world \<Rightarrow> world" where
  "step e pt w = (if signal_at e pt then sigHandler w else w)"

definition emit :: "event \<Rightarrow> world \<Rightarrow> world" where
  "emit ev w = w\<lparr>trace := trace w @ [ev]\<rparr>"

definition say :: "msg \<Rightarrow> world \<Rightarrow> world" where
  "say m w = w\<lparr>cerr := cerr w @ [m]\<rparr>"

subsection \<open>Argument parsing\<close>

definition isspace_c :: "char \<Rightarrow> bool" where
  "isspace_c c = (of_char c = (32::nat) \<or> (9 \<le> (of_char c :: nat) \<and> (of_char c :: nat) \<le> 13))"

definition isdigit_c :: "char \<Rightarrow> bool" where
  "isdigit_c c = (48 \<le> (of_char c :: nat) \<and> (of_char c :: nat) \<le> 57)"

definition digits_val :: "string \<Rightarrow> nat" where
  "digits_val ds = foldl (\<lambda>a c. 10 * a + (of_char c - 48)) 0 ds"

definition LONG_MAX :: int where
  "LONG_MAX = 2 ^ 63 - 1"

definition LONG_MIN :: int where
  "LONG_MIN = - (2 ^ 63)"

text \<open>
  \<^verbatim>\<open>std::stol(s, &pos)\<close> in base 10: leading white space, an optional sign, then
  decimal digits. No digit: \<^verbatim>\<open>std::invalid_argument\<close>; a value outside
  \<^verbatim>\<open>long\<close>: \<^verbatim>\<open>std::out_of_range\<close>; otherwise the value and the index of
  the first character not consumed.
\<close>

definition stol :: "string \<Rightarrow> parse_error + (int \<times> nat)" where
  "stol s =
     (let s1 = dropWhile isspace_c s;
          neg = (s1 \<noteq> [] \<and> hd s1 = CHR ''-'');
          s2 = (if s1 \<noteq> [] \<and> (hd s1 = CHR ''-'' \<or> hd s1 = CHR ''+'') then tl s1 else s1);
          ds = takeWhile isdigit_c s2
      in if ds = [] then Inl InvalidArgument
         else let v = (if neg then - int (digits_val ds) else int (digits_val ds))
              in if v < LONG_MIN \<or> LONG_MAX < v then Inl OutOfRange
                 else Inr (v, (length s - length s2) + length ds))"

definition usage :: "string list \<Rightarrow> bool \<Rightarrow> world \<Rightarrow> world" where
  "usage argv showBanner w =
     (let progname = (if argv \<noteq> [] then hd argv else ''wrdata'');
          w1 = (if showBanner then say MsgBanner w else w);
          w2 = say (MsgUsage progname) w1
      in if showBanner then say MsgBlank w2 else w2)"

definition parseArgs :: "string list \<Rightarrow> world \<Rightarrow> Context \<times> world" where
  "parseArgs argv w =
     (let p = Context_default in
      if length argv < 2 then (p, usage argv True w)
      else
        let p1 = p\<lparr>outfile := argv ! 1\<rparr> in
        if outfile p1 = [] \<or> hd (outfile p1) = CHR ''-'' then (p1, usage argv True w)
        else if length argv > 2 then
          (case stol (argv ! 2) of
             Inl err \<Rightarrow> (p1, usage argv False (say (MsgParseFail err) w))
           | Inr (v, pos) \<Rightarrow>
               if v \<le> 0 then (p1, usage argv False (say (MsgParseFail NotPositive) w))
               else if pos < length (argv ! 2)
                 then (p1, usage argv False (say (MsgParseFail ExtraChars) w))
               else (p1\<lparr>mb := word_of_int v, valid := True\<rparr>, w))
        else (p1\<lparr>valid := True\<rparr>, w))"

subsection \<open>The write phase\<close>

text \<open>
  The buffer of \<open>BUFSZ\<close> bytes is filled from 64-bit random words: byte \<open>j\<close> of the
  buffer is byte \<open>j mod 8\<close> of word \<open>j div 8\<close>.
\<close>

definition gen_buf :: "env \<Rightarrow> byte list" where
  "gen_buf e = map (\<lambda>j. ucast (drop_bit (8 * (j mod 8)) (rnd e (j div 8)))) [0..<unat BUFSZ]"

text \<open>
  The loop \<^verbatim>\<open>for (i = 0; i < N/BUFSZ && !interrupted; ++i) ostrm.write(buf, BUFSZ)\<close>.
  The flag is read only when \<open>i < M\<close>. The result says whether a write threw. The
  stream's own buffering is not modelled: a write that succeeds appends its bytes to the
  file. When an exception leaves the stream open, its destructor closes it; that close
  reports nothing and is not logged.
\<close>

function write_loop :: "env \<Rightarrow> string \<Rightarrow> byte list \<Rightarrow> nat \<Rightarrow> nat \<Rightarrow> world \<Rightarrow> bool \<times> world" where
  "write_loop e path buf M i w =
     (if i < M then
        let w1 = step e (PWCheck i) w in
        if interrupted w1 then (False, w1)
        else
          let w2 = step e (PWWrite i) w1 in
          if write_fails e i then (True, emit EvWriteFail w2)
          else write_loop e path buf M (Suc i)
                 (emit (EvWrite buf) (w2\<lparr>fs := (fs w2)(path \<mapsto> (case fs w2 path of None \<Rightarrow> [] | Some c \<Rightarrow> c) @ buf)\<rparr>))
      else (False, w))"
  by pat_completeness auto
termination
  by (relation "measure (\<lambda>(e, path, buf, M, i, w). M - i)") auto

definition doWrite :: "env \<Rightarrow> Context \<Rightarrow> world \<Rightarrow> int \<times> Context \<times> world" where
  "doWrite e p w =
     (let N = mb p * MB in
      if N < BUFSZ then (2, p, say (MsgInvalidSize N) w)
      else
        let w1 = step e PWOpen w in
        if wopen_fails e
          then (3, p, say (MsgErrWrite ''opening'' (outfile p)) (emit (EvOpenW False) w1))
        else
          let w2 = emit (EvOpenW True) (w1\<lparr>fs := (fs w1)(outfile p \<mapsto> [])\<rparr>);
              p1 = p\<lparr>outfileCreated := True\<rparr>;
              buf = gen_buf e;
              (threw, w3) = write_loop e (outfile p) buf (unat (N div BUFSZ)) 0 w2
          in if threw then (3, p1, say (MsgErrWrite ''writing to'' (outfile p)) w3)
             else
               let w4 = step e PWFlush w3 in
               if flush_fails e
                 then (3, p1, say (MsgErrWrite ''writing to'' (outfile p)) (emit (EvFlush False) w4))
               else
                 let w5 = step e PWClose (emit (EvFlush True) w4) in
                 if close_fails e
                   then (3, p1, say (MsgErrWrite ''opening'' (outfile p)) (emit (EvCloseW False) w5))
                 else
                   let w6 = step e PWFinal (emit (EvCloseW True) w5) in
                   if interrupted w6 then (99, p1, w6) else (0, p1, w6))"

subsection \<open>The read phase\<close>

text \<open>
  The loop \<^verbatim>\<open>while ((nread = read(fd, buf, BUFSZ)) > 0 && !interrupted) count += nread\<close>.
  A read of a regular file returns the next \<open>BUFSZ\<close> bytes, or what is left of the file,
  or fails (\<open>-1\<close>); a failed read and end of file both end the loop.
\<close>

function read_loop :: "env \<Rightarrow> nat \<Rightarrow> byte list \<Rightarrow> size_t \<Rightarrow> world \<Rightarrow> size_t \<times> world" where
  "read_loop e k rest count w =
     (let w1 = step e (PRead k) w in
      if read_fails e k then (count, emit EvReadErr w1)
      else
        let chunk = take (unat BUFSZ) rest;
            w2 = emit (EvRead chunk) w1
        in if chunk = [] then (count, w2)
           else
             let w3 = step e (PRCheck k) w2 in
             if interrupted w3 then (count, w3)
             else read_loop e (Suc k) (drop (unat BUFSZ) rest)
                    (count + of_nat (length chunk)) w3)"
  by pat_completeness auto
termination
  by (relation "measure (\<lambda>(e, k, rest, count, w). length rest)") auto

definition doRead :: "env \<Rightarrow> Context \<Rightarrow> world \<Rightarrow> int \<times> world" where
  "doRead e p w =
     (let w1 = emit (EvPurge (purge_res e)) (step e PPurge w) in
      if purge_res e \<noteq> 0 then (purge_res e, say (MsgPurgeFailed (purge_res e)) w1)
      else
        let w2 = step e PROpen w1 in
        case (if ropen_fails e then None else fs w2 (outfile p)) of
          None \<Rightarrow> (10, say MsgErrOpenRead (emit (EvOpenR False) w2))
        | Some content \<Rightarrow>
            let w3 = emit (EvNoCache (fcntl_res e)) (step e PNoCache (emit (EvOpenR True) w2)) in
            if fcntl_res e \<noteq> 0 then (11, emit EvCloseR (say (MsgFcntl (fcntl_res e)) w3))
            else
              let (count, w4) = read_loop e 0 content 0 w3;
                  w5 = step e PRFinal w4
              in if interrupted w5 then (99, emit EvCloseR w5)
                 else if count \<noteq> 0 then (0, emit EvCloseR w5)
                 else (20, emit EvCloseR (say MsgErrReading w5)))"

subsection \<open>Cleanup and main\<close>

definition defer_RmOutfile :: "env \<Rightarrow> Context \<Rightarrow> world \<Rightarrow> Context \<times> world" where
  "defer_RmOutfile e p w =
     (if outfileCreated p then
        let w1 = step e PUnlink w in
        if unlink_fails e \<or> fs w1 (outfile p) = None
          then (p, say (MsgFailedRemove (outfile p)) (emit (EvUnlink False) w1))
        else (p\<lparr>outfileCreated := False\<rparr>,
              say (MsgRemoved (outfile p))
                (emit (EvUnlink True) (w1\<lparr>fs := (fs w1)(outfile p := None)\<rparr>)))
      else (p, w))"

text \<open>
  \<open>main e argv f\<close> runs the program on the command line \<open>argv\<close> (program name
  first) in the file system \<open>f\<close>, and returns the value \<^verbatim>\<open>main\<close> returns, the
  context and the world at exit. The guard \<^verbatim>\<open>defer_RmOutfile\<close> is constructed after
  the first \<^verbatim>\<open>return\<close>, so its action runs at the two later ones.
\<close>

definition main :: "env \<Rightarrow> string list \<Rightarrow> (string \<rightharpoonup> byte list) \<Rightarrow> int \<times> Context \<times> world" where
  "main e argv f =
     (let (p, w) = parseArgs argv (init_world f) in
      if \<not> valid p then (1, p, w)
      else
        let (res, p1, w1) = doWrite e p w in
        if res \<noteq> 0 then (let (p2, w2) = defer_RmOutfile e p1 w1 in (res, p2, w2))
        else
          let (res2, w2) = doRead e p1 w1;
              (p3, w3) = defer_RmOutfile e p1 w2
          in (res2, p3, w3))"

subsection \<open>Observations on a run\<close>

text \<open>
  The phase an event belongs to: 0 for the write phase, 1 for the cache purge, 2 for the
  read phase, 3 for the cleanup.
\<close>

definition phase_of :: "event \<Rightarrow> nat" where
  "phase_of ev =
     (case ev of
        EvOpenW b \<Rightarrow> 0 | EvWrite c \<Rightarrow> 0 | EvWriteFail \<Rightarrow> 0 | EvFlush b \<Rightarrow> 0 | EvCloseW b \<Rightarrow> 0
      | EvPurge r \<Rightarrow> 1
      | EvOpenR b \<Rightarrow> 2 | EvNoCache r \<Rightarrow> 2 | EvRead c \<Rightarrow> 2 | EvReadErr \<Rightarrow> 2 | EvCloseR \<Rightarrow> 2
      | EvUnlink b \<Rightarrow> 3)"

text \<open>The buffers written, and the chunks read, in the order of the calls.\<close>

definition writes_of :: "event list \<Rightarrow> byte list list" where
  "writes_of tr = concat (map (\<lambda>ev. case ev of EvWrite c \<Rightarrow> [c] | _ \<Rightarrow> []) tr)"

definition reads_of :: "event list \<Rightarrow> byte list list" where
  "reads_of tr = concat (map (\<lambda>ev. case ev of EvRead c \<Rightarrow> [c] | _ \<Rightarrow> []) tr)"

definition unlinks_of :: "event list \<Rightarrow> bool list" where
  "unlinks_of tr = concat (map (\<lambda>ev. case ev of EvUnlink b \<Rightarrow> [b] | _ \<Rightarrow> []) tr)"

text \<open>
  The configuration the command line yields, and what a whole run leaves behind.
  \<open>exit_code\<close> is the value \<^verbatim>\<open>main\<close> returns; what the operating system keeps
  of that value as the exit status of the process is not part of the program.
\<close>

definition parsed :: "string list \<Rightarrow> Context" where
  "parsed argv = fst (parseArgs argv (init_world Map.empty))"

definition exit_code :: "env \<Rightarrow> string list \<Rightarrow> (string \<rightharpoonup> byte list) \<Rightarrow> int" where
  "exit_code e argv f = fst (main e argv f)"

definition final_context :: "env \<Rightarrow> string list \<Rightarrow> (string \<rightharpoonup> byte list) \<Rightarrow> Context" where
  "final_context e argv f = fst (snd (main e argv f))"

definition final_world :: "env \<Rightarrow> string list \<Rightarrow> (string \<rightharpoonup> byte list) \<Rightarrow> world" where
  "final_world e argv f = snd (snd (main e argv f))"

definition run_trace :: "env \<Rightarrow> string list \<Rightarrow> (string \<rightharpoonup> byte list) \<Rightarrow> event list" where
  "run_trace e argv f = trace (final_world e argv f)"

text \<open>
  The test \<^verbatim>\<open>parseArgs\<close> applies to the text of \<^verbatim>\<open>SIZE_MB\<close>: it converts, the
  value is positive and nothing follows the digits.
\<close>

definition size_ok :: "string \<Rightarrow> bool" where
  "size_ok s = (case stol s of Inl err \<Rightarrow> False | Inr (v, pos) \<Rightarrow> 0 < v \<and> \<not> pos < length s)"

text \<open>The number of buffers the write loop is bound by: \<^verbatim>\<open>N/BUFSZ\<close> with \<^verbatim>\<open>N = p.mb * MB\<close>.\<close>

definition nbufs :: "Context \<Rightarrow> nat" where
  "nbufs p = unat (mb p * MB div BUFSZ)"

text \<open>The outcome of the write phase inside a run whose arguments were accepted.\<close>

definition write_result :: "env \<Rightarrow> string list \<Rightarrow> (string \<rightharpoonup> byte list) \<Rightarrow> int" where
  "write_result e argv f = fst (doWrite e (parsed argv) (init_world f))"

text \<open>The outcome of \<^verbatim>\<open>doRead\<close> (purge command and read phase) after that write phase.\<close>

definition read_result :: "env \<Rightarrow> string list \<Rightarrow> (string \<rightharpoonup> byte list) \<Rightarrow> int" where
  "read_result e argv f =
     (let (r1, p1, w1) = doWrite e (parsed argv) (init_world f) in fst (doRead e p1 w1))"

text \<open>An environment in which no signal arrives and every call succeeds.\<close>

definition quiet_env :: env where
  "quiet_env =
     \<lparr>signal_at = (\<lambda>pt. False), rnd = (\<lambda>i. 0), wopen_fails = False,
      write_fails = (\<lambda>i. False), flush_fails = False, close_fails = False, purge_res = 0,
      ropen_fails = False, fcntl_res = 0, read_fails = (\<lambda>k. False), unlink_fails = False\<rparr>"

subsection \<open>Exceptions that no handler catches\<close>

text \<open>
  Three steps of the program can throw an exception that is not an
  \<^verbatim>\<open>ios_base::failure\<close>. In \<^verbatim>\<open>doWrite\<close> the allocation of the buffer
  (\<^verbatim>\<open>make_unique\<close>) and the entropy source (\<^verbatim>\<open>random_device\<close>) come after the
  open and after \<^verbatim>\<open>p.outfileCreated = true\<close>, inside the \<^verbatim>\<open>try\<close> block, whose
  handler catches \<^verbatim>\<open>ios_base::failure\<close> only. In \<^verbatim>\<open>doRead\<close> the buffer is
  allocated after the \<^verbatim>\<open>fcntl\<close>. Nothing in the program catches such an exception:
  the process ends in \<^verbatim>\<open>std::terminate\<close>, \<^verbatim>\<open>main\<close> does not return and, the
  stack not being unwound on this platform when no handler exists, no destructor runs,
  neither the guard's nor the one that closes the descriptor.

  \<open>throws\<close> tells which of the three steps throw. \<open>doWrite_exn\<close>, \<open>doRead_exn\<close> and
  \<open>main_exn\<close> are the three functions with these steps: \<open>Inl\<close> is the exception
  leaving the function, with the context and the world of that moment, and a run ends
  either with the value \<^verbatim>\<open>main\<close> returns or terminated.
\<close>

record throws =
  alloc_write_throws :: bool
  entropy_throws :: bool
  alloc_read_throws :: bool


definition doWrite_exn ::
  "throws \<Rightarrow> env \<Rightarrow> Context \<Rightarrow> world \<Rightarrow> (Context \<times> world) + (int \<times> Context \<times> world)" where
  "doWrite_exn x e p w =
     (let N = mb p * MB in
      if N < BUFSZ then Inr (2, p, say (MsgInvalidSize N) w)
      else
        let w1 = step e PWOpen w in
        if wopen_fails e
          then Inr (3, p, say (MsgErrWrite ''opening'' (outfile p)) (emit (EvOpenW False) w1))
        else
          let w2 = emit (EvOpenW True) (w1\<lparr>fs := (fs w1)(outfile p \<mapsto> [])\<rparr>);
              p1 = p\<lparr>outfileCreated := True\<rparr>
          in if alloc_write_throws x then Inl (p1, w2)
             else if entropy_throws x then Inl (p1, w2)
             else
               let buf = gen_buf e;
                   (threw, w3) = write_loop e (outfile p) buf (unat (N div BUFSZ)) 0 w2
               in if threw then Inr (3, p1, say (MsgErrWrite ''writing to'' (outfile p)) w3)
                  else
                    let w4 = step e PWFlush w3 in
                    if flush_fails e
                      then Inr (3, p1, say (MsgErrWrite ''writing to'' (outfile p))
                                  (emit (EvFlush False) w4))
                    else
                      let w5 = step e PWClose (emit (EvFlush True) w4) in
                      if close_fails e
                        then Inr (3, p1, say (MsgErrWrite ''opening'' (outfile p))
                                    (emit (EvCloseW False) w5))
                      else
                        let w6 = step e PWFinal (emit (EvCloseW True) w5) in
                        if interrupted w6 then Inr (99, p1, w6) else Inr (0, p1, w6))"

definition doRead_exn :: "throws \<Rightarrow> env \<Rightarrow> Context \<Rightarrow> world \<Rightarrow> world + (int \<times> world)" where
  "doRead_exn x e p w =
     (let w1 = emit (EvPurge (purge_res e)) (step e PPurge w) in
      if purge_res e \<noteq> 0 then Inr (purge_res e, say (MsgPurgeFailed (purge_res e)) w1)
      else
        let w2 = step e PROpen w1 in
        case (if ropen_fails e then None else fs w2 (outfile p)) of
          None \<Rightarrow> Inr (10, say MsgErrOpenRead (emit (EvOpenR False) w2))
        | Some content \<Rightarrow>
            let w3 = emit (EvNoCache (fcntl_res e)) (step e PNoCache (emit (EvOpenR True) w2)) in
            if fcntl_res e \<noteq> 0 then Inr (11, emit EvCloseR (say (MsgFcntl (fcntl_res e)) w3))
            else if alloc_read_throws x then Inl w3
            else
              let (count, w4) = read_loop e 0 content 0 w3;
                  w5 = step e PRFinal w4
              in if interrupted w5 then Inr (99, emit EvCloseR w5)
                 else if count \<noteq> 0 then Inr (0, emit EvCloseR w5)
                 else Inr (20, emit EvCloseR (say MsgErrReading w5)))"






text \<open>No step throws.\<close>

definition no_throws :: throws where
  "no_throws = \<lparr>alloc_write_throws = False, entropy_throws = False, alloc_read_throws = False\<rparr>"

subsection \<open>Basic facts\<close>

lemma unat_BUFSZ: "unat BUFSZ = 1048576"
  by (simp add: BUFSZ_def MB_def)

lemma BUFSZ_pos: "0 < unat BUFSZ"
  by (simp add: unat_BUFSZ)

lemma length_gen_buf: "length (gen_buf e) = unat BUFSZ"
  by (simp add: gen_buf_def)

lemma step_simps [simp]:
  "fs (step e pt w) = fs w"
  "trace (step e pt w) = trace w"
  "interrupted (step e pt w) = (interrupted w \<or> signal_at e pt)"
  "cerr (step e pt w) = cerr w @ (if signal_at e pt then [MsgCaught] else [])"
  by (simp_all add: step_def sigHandler_def)

lemma emit_simps [simp]:
  "fs (emit ev w) = fs w"
  "trace (emit ev w) = trace w @ [ev]"
  "interrupted (emit ev w) = interrupted w"
  "cerr (emit ev w) = cerr w"
  by (simp_all add: emit_def)

lemma say_simps [simp]:
  "fs (say m w) = fs w"
  "trace (say m w) = trace w"
  "interrupted (say m w) = interrupted w"
  "cerr (say m w) = cerr w @ [m]"
  by (simp_all add: say_def)

lemma step_quiet: "\<not> signal_at e pt \<Longrightarrow> step e pt w = w"
  by (simp add: step_def)

declare write_loop.simps [simp del] read_loop.simps [simp del]

subsection \<open>What the write phase leaves behind\<close>

lemma write_loop_shape:
  "write_loop e path buf M i w = (threw, w') \<Longrightarrow> i \<le> M \<Longrightarrow> fs w path = Some c \<Longrightarrow>
     \<exists>k. i + k \<le> M
       \<and> trace w' = trace w @ replicate k (EvWrite buf) @ (if threw then [EvWriteFail] else [])
       \<and> fs w' = (fs w)(path \<mapsto> c @ concat (replicate k buf))
       \<and> (interrupted w \<longrightarrow> interrupted w')
       \<and> (\<not> threw \<and> \<not> interrupted w' \<longrightarrow> i + k = M)"
proof (induction e path buf M i w arbitrary: c rule: write_loop.induct)
  case (1 e path buf M i w)
  show ?case
  proof (cases "i < M")
    case False
    with "1.prems" show ?thesis
      by (subst (asm) write_loop.simps) (auto intro!: exI [of _ 0])
  next
    case True
    note lt = this
    show ?thesis
    proof (cases "interrupted (step e (PWCheck i) w)")
      case True
      with lt "1.prems" show ?thesis
        by (subst (asm) write_loop.simps) (auto simp: Let_def intro!: exI [of _ 0])
    next
      case False
      note ni = this
      show ?thesis
      proof (cases "write_fails e i")
        case True
        with lt ni "1.prems" show ?thesis
          by (subst (asm) write_loop.simps) (auto simp: Let_def intro!: exI [of _ 0])
      next
        case False
        let ?w2 = "step e (PWWrite i) (step e (PWCheck i) w)"
        let ?w3 = "emit (EvWrite buf) (?w2\<lparr>fs := (fs ?w2)(path \<mapsto> (case fs ?w2 path of None \<Rightarrow> [] | Some c \<Rightarrow> c) @ buf)\<rparr>)"
        from lt ni False "1.prems"(1) have rec: "write_loop e path buf M (Suc i) ?w3 = (threw, w')"
          by (subst (asm) write_loop.simps) (simp add: Let_def)
        have fs3: "fs ?w3 path = Some (c @ buf)"
          using "1.prems"(3) by simp
        have le: "Suc i \<le> M" using lt by simp
        from "1.IH" [OF lt refl ni refl False rec le fs3]
        obtain k where k: "Suc i + k \<le> M"
          "trace w' = trace ?w3 @ replicate k (EvWrite buf) @ (if threw then [EvWriteFail] else [])"
          "fs w' = (fs ?w3)(path \<mapsto> (c @ buf) @ concat (replicate k buf))"
          "interrupted ?w3 \<longrightarrow> interrupted w'"
          "\<not> threw \<and> \<not> interrupted w' \<longrightarrow> Suc i + k = M"
          by blast
        have "i + Suc k \<le> M" using k(1) by simp
        moreover have "trace w' = trace w @ replicate (Suc k) (EvWrite buf) @ (if threw then [EvWriteFail] else [])"
          using k(2) by simp
        moreover have "fs w' = (fs w)(path \<mapsto> c @ concat (replicate (Suc k) buf))"
          using k(3) by simp
        moreover have "interrupted w \<longrightarrow> interrupted w'"
          using k(4) by simp
        moreover have "\<not> threw \<and> \<not> interrupted w' \<longrightarrow> i + Suc k = M"
          using k(5) by simp
        ultimately show ?thesis by blast
      qed
    qed
  qed
qed

lemma doWrite_small:
  "mb p * MB < BUFSZ \<Longrightarrow> doWrite e p w = (2, p, say (MsgInvalidSize (mb p * MB)) w)"
  by (simp add: doWrite_def)

lemma doWrite_open_fail:
  "\<not> mb p * MB < BUFSZ \<Longrightarrow> wopen_fails e \<Longrightarrow>
     doWrite e p w =
       (3, p, say (MsgErrWrite ''opening'' (outfile p)) (emit (EvOpenW False) (step e PWOpen w)))"
  by (simp add: doWrite_def Let_def)

lemma doWrite_opened:
  assumes size: "\<not> mb p * MB < BUFSZ" and op: "\<not> wopen_fails e"
    and run: "doWrite e p w = (r, p', w')"
  shows "\<exists>k evs. k \<le> nbufs p
      \<and> trace w' = trace w @ EvOpenW True # replicate k (EvWrite (gen_buf e)) @ evs
      \<and> fs w' = (fs w)(outfile p \<mapsto> concat (replicate k (gen_buf e)))
      \<and> p' = p\<lparr>outfileCreated := True\<rparr>
      \<and> (interrupted w \<longrightarrow> interrupted w')
      \<and> ((r = 3 \<and> (evs = [EvWriteFail] \<or> evs = [EvFlush False] \<or> evs = [EvFlush True, EvCloseW False]))
         \<or> (r = 99 \<and> evs = [EvFlush True, EvCloseW True] \<and> interrupted w')
         \<or> (r = 0 \<and> evs = [EvFlush True, EvCloseW True] \<and> \<not> interrupted w' \<and> k = nbufs p))"
proof -
  let ?w1 = "step e PWOpen w"
  let ?w2 = "emit (EvOpenW True) (?w1\<lparr>fs := (fs ?w1)(outfile p \<mapsto> [])\<rparr>)"
  obtain threw w3 where wl: "write_loop e (outfile p) (gen_buf e) (nbufs p) 0 ?w2 = (threw, w3)"
    by (cases "write_loop e (outfile p) (gen_buf e) (nbufs p) 0 ?w2") blast
  have fs2: "fs ?w2 (outfile p) = Some []" by simp
  from write_loop_shape [OF wl _ fs2]
  obtain k where k: "k \<le> nbufs p"
    "trace w3 = trace ?w2 @ replicate k (EvWrite (gen_buf e)) @ (if threw then [EvWriteFail] else [])"
    "fs w3 = (fs ?w2)(outfile p \<mapsto> [] @ concat (replicate k (gen_buf e)))"
    "interrupted ?w2 \<longrightarrow> interrupted w3"
    "\<not> threw \<and> \<not> interrupted w3 \<longrightarrow> 0 + k = nbufs p"
    by auto
  have tr3: "trace w3 = trace w @ EvOpenW True # replicate k (EvWrite (gen_buf e)) @ (if threw then [EvWriteFail] else [])"
    using k(2) by simp
  have fs3: "fs w3 = (fs w)(outfile p \<mapsto> concat (replicate k (gen_buf e)))"
    using k(3) by simp
  have int3: "interrupted w \<longrightarrow> interrupted w3"
    using k(4) by simp
  show ?thesis
  proof (cases threw)
    case True
    with size op wl run have "r = 3" "p' = p\<lparr>outfileCreated := True\<rparr>"
      "w' = say (MsgErrWrite ''writing to'' (outfile p)) w3"
      by (auto simp: doWrite_def Let_def nbufs_def)
    with True tr3 fs3 int3 k(1) show ?thesis
      by (intro exI [of _ k] exI [of _ "[EvWriteFail]"]) simp
  next
    case False
    note nt = this
    show ?thesis
    proof (cases "flush_fails e")
      case True
      with nt size op wl run have "r = 3" "p' = p\<lparr>outfileCreated := True\<rparr>"
        "w' = say (MsgErrWrite ''writing to'' (outfile p)) (emit (EvFlush False) (step e PWFlush w3))"
        by (auto simp: doWrite_def Let_def nbufs_def)
      with nt tr3 fs3 int3 k(1) show ?thesis
        by (intro exI [of _ k] exI [of _ "[EvFlush False]"]) simp
    next
      case False
      note nf = this
      show ?thesis
      proof (cases "close_fails e")
        case True
        with nt nf size op wl run have "r = 3" "p' = p\<lparr>outfileCreated := True\<rparr>"
          "w' = say (MsgErrWrite ''opening'' (outfile p))
                  (emit (EvCloseW False) (step e PWClose (emit (EvFlush True) (step e PWFlush w3))))"
          by (auto simp: doWrite_def Let_def nbufs_def)
        with nt tr3 fs3 int3 k(1) show ?thesis
          by (intro exI [of _ k] exI [of _ "[EvFlush True, EvCloseW False]"]) simp
      next
        case False
        let ?w6 = "step e PWFinal (emit (EvCloseW True) (step e PWClose (emit (EvFlush True) (step e PWFlush w3))))"
        from False nt nf size op wl run have res: "p' = p\<lparr>outfileCreated := True\<rparr>" "w' = ?w6"
          "r = (if interrupted ?w6 then 99 else 0)"
          by (auto simp: doWrite_def Let_def nbufs_def split: if_splits)
        have "\<not> interrupted ?w6 \<longrightarrow> \<not> interrupted w3" by simp
        with k(5) nt have full: "\<not> interrupted ?w6 \<longrightarrow> k = nbufs p" by simp
        from res nt tr3 fs3 int3 k(1) full show ?thesis
          by (intro exI [of _ k] exI [of _ "[EvFlush True, EvCloseW True]"]) auto
      qed
    qed
  qed
qed

subsection \<open>What the read phase leaves behind\<close>

lemma read_loop_unfold:
  "read_loop e k rest count w =
     (if read_fails e k then (count, emit EvReadErr (step e (PRead k) w))
      else if rest = [] then (count, emit (EvRead []) (step e (PRead k) w))
      else if interrupted (step e (PRCheck k) (emit (EvRead (take (unat BUFSZ) rest)) (step e (PRead k) w)))
        then (count, step e (PRCheck k) (emit (EvRead (take (unat BUFSZ) rest)) (step e (PRead k) w)))
      else read_loop e (Suc k) (drop (unat BUFSZ) rest)
             (count + of_nat (length (take (unat BUFSZ) rest)))
             (step e (PRCheck k) (emit (EvRead (take (unat BUFSZ) rest)) (step e (PRead k) w))))"
proof -
  have "unat BUFSZ \<noteq> 0" using BUFSZ_pos by simp
  then show ?thesis
    by (subst read_loop.simps) (simp add: Let_def del: step_simps emit_simps)
qed

lemma read_loop_shape:
  "read_loop e k rest count w = (count', w') \<Longrightarrow>
     \<exists>cs tl. trace w' = trace w @ map EvRead cs @ tl
       \<and> (tl = [] \<or> tl = [EvReadErr])
       \<and> (cs \<noteq> [] \<or> tl \<noteq> [])
       \<and> (\<exists>sfx. rest = concat cs @ sfx)
       \<and> fs w' = fs w
       \<and> (interrupted w \<longrightarrow> interrupted w')
       \<and> (\<not> interrupted w' \<longrightarrow> count' = count + of_nat (length (concat cs)))
       \<and> (\<not> interrupted w' \<and> (\<forall>j. \<not> read_fails e j) \<longrightarrow> concat cs = rest \<and> tl = [])
       \<and> (\<not> read_fails e k \<and> rest \<noteq> [] \<longrightarrow> concat cs \<noteq> [])"
proof (induction e k rest count w rule: read_loop.induct)
  case (1 e k rest count w)
  let ?w1 = "step e (PRead k) w"
  let ?chunk = "take (unat BUFSZ) rest"
  let ?w2 = "emit (EvRead ?chunk) ?w1"
  let ?w3 = "step e (PRCheck k) ?w2"
  show ?case
  proof (cases "read_fails e k")
    case True
    with "1.prems" have eq: "count' = count" "w' = emit EvReadErr ?w1"
      by (simp_all add: read_loop_unfold)
    show ?thesis
      apply (rule exI [of _ "[]"], rule exI [of _ "[EvReadErr]"])
      using eq True by auto
  next
    case False
    note nf = this
    show ?thesis
    proof (cases "rest = []")
      case True
      with nf "1.prems" have eq: "count' = count" "w' = emit (EvRead []) ?w1"
        by (simp_all add: read_loop_unfold)
      show ?thesis
        apply (rule exI [of _ "[[]]"], rule exI [of _ "[]"])
        using eq True by simp
    next
      case False
      note ne = this
      then have cne: "?chunk \<noteq> []" using BUFSZ_pos by simp
      show ?thesis
      proof (cases "interrupted ?w3")
        case True
        with nf ne "1.prems" have eq: "count' = count" "w' = ?w3"
          by (simp_all add: read_loop_unfold)
        have sfx: "\<exists>sfx. rest = concat [?chunk] @ sfx"
          by (rule exI [of _ "drop (unat BUFSZ) rest"]) simp
        have int: "interrupted w'" using True eq by simp
        show ?thesis
          apply (rule exI [of _ "[?chunk]"], rule exI [of _ "[]"])
          apply (intro conjI)
          subgoal using eq by simp
          subgoal by simp
          subgoal by simp
          subgoal by (rule sfx)
          subgoal using eq by simp
          subgoal using int by simp
          subgoal using int by simp
          subgoal using int by simp
          subgoal using cne by simp
          done
      next
        case False
        with nf ne "1.prems"
        have rec: "read_loop e (Suc k) (drop (unat BUFSZ) rest) (count + of_nat (length ?chunk)) ?w3 = (count', w')"
          by (simp add: read_loop_unfold)
        from "1.IH" [OF refl nf refl refl cne refl False rec]
        obtain cs tl sfx where ih:
          "trace w' = trace ?w3 @ map EvRead cs @ tl"
          "tl = [] \<or> tl = [EvReadErr]"
          "drop (unat BUFSZ) rest = concat cs @ sfx"
          "fs w' = fs ?w3"
          "interrupted ?w3 \<longrightarrow> interrupted w'"
          "\<not> interrupted w' \<longrightarrow> count' = count + of_nat (length ?chunk) + of_nat (length (concat cs))"
          "\<not> interrupted w' \<and> (\<forall>j. \<not> read_fails e j) \<longrightarrow> concat cs = drop (unat BUFSZ) rest \<and> tl = []"
          by blast
        have a: "trace w' = trace w @ map EvRead (?chunk # cs) @ tl"
          using ih(1) by simp
        have "rest = ?chunk @ drop (unat BUFSZ) rest" by simp
        then have "rest = concat (?chunk # cs) @ sfx"
          using ih(3) by simp
        then have b: "\<exists>sfx. rest = concat (?chunk # cs) @ sfx" ..
        have c: "fs w' = fs w" using ih(4) by simp
        have d: "interrupted w \<longrightarrow> interrupted w'" using ih(5) by simp
        have f: "\<not> interrupted w' \<longrightarrow> count' = count + of_nat (length (concat (?chunk # cs)))"
          using ih(6) by simp
        have g: "\<not> interrupted w' \<and> (\<forall>j. \<not> read_fails e j) \<longrightarrow> concat (?chunk # cs) = rest \<and> tl = []"
          using ih(7) by simp
        have h: "\<not> read_fails e k \<and> rest \<noteq> [] \<longrightarrow> concat (?chunk # cs) \<noteq> []" using cne by simp
        have i: "?chunk # cs \<noteq> [] \<or> tl \<noteq> []" by simp
        show ?thesis
          apply (rule exI [of _ "?chunk # cs"], rule exI [of _ tl])
          apply (intro conjI)
          subgoal by (rule a)
          subgoal by (rule ih(2))
          subgoal by (rule i)
          subgoal by (rule b)
          subgoal by (rule c)
          subgoal by (rule d)
          subgoal by (rule f)
          subgoal by (rule g)
          subgoal by (rule h)
          done
      qed
    qed
  qed
qed

lemma doRead_purge_fail:
  "purge_res e \<noteq> 0 \<Longrightarrow>
     doRead e p w =
       (purge_res e, say (MsgPurgeFailed (purge_res e)) (emit (EvPurge (purge_res e)) (step e PPurge w)))"
  by (simp add: doRead_def Let_def)

lemma doRead_open_fail:
  "purge_res e = 0 \<Longrightarrow> ropen_fails e \<or> fs w (outfile p) = None \<Longrightarrow>
     doRead e p w =
       (10, say MsgErrOpenRead (emit (EvOpenR False) (step e PROpen (emit (EvPurge 0) (step e PPurge w)))))"
  by (auto simp: doRead_def Let_def)

lemma doRead_fcntl_fail:
  "purge_res e = 0 \<Longrightarrow> \<not> ropen_fails e \<Longrightarrow> fs w (outfile p) = Some content \<Longrightarrow>
   fcntl_res e \<noteq> 0 \<Longrightarrow>
     doRead e p w =
       (11, emit EvCloseR (say (MsgFcntl (fcntl_res e))
              (emit (EvNoCache (fcntl_res e)) (step e PNoCache (emit (EvOpenR True)
                 (step e PROpen (emit (EvPurge 0) (step e PPurge w))))))))"
  by (simp add: doRead_def Let_def)

lemma doRead_reading:
  assumes pr: "purge_res e = 0" and ro: "\<not> ropen_fails e"
    and fl: "fs w (outfile p) = Some content" and fc: "fcntl_res e = 0"
    and run: "doRead e p w = (r, w')"
  shows "\<exists>cs tl. trace w' = trace w @ [EvPurge 0, EvOpenR True, EvNoCache 0] @ map EvRead cs @ tl @ [EvCloseR]
      \<and> (tl = [] \<or> tl = [EvReadErr])
      \<and> (\<exists>sfx. content = concat cs @ sfx)
      \<and> fs w' = fs w
      \<and> (interrupted w \<longrightarrow> interrupted w')
      \<and> (r = 99 \<longleftrightarrow> interrupted w')
      \<and> (\<not> interrupted w' \<longrightarrow> r = (if (of_nat (length (concat cs)) :: size_t) \<noteq> 0 then 0 else 20))
      \<and> (\<not> interrupted w' \<and> (\<forall>j. \<not> read_fails e j) \<longrightarrow> concat cs = content \<and> tl = [])
      \<and> (\<not> read_fails e 0 \<and> content \<noteq> [] \<longrightarrow> concat cs \<noteq> [])"
proof -
  let ?w3 = "emit (EvNoCache 0) (step e PNoCache (emit (EvOpenR True)
               (step e PROpen (emit (EvPurge 0) (step e PPurge w)))))"
  obtain count w4 where rl: "read_loop e 0 content 0 ?w3 = (count, w4)"
    by (cases "read_loop e 0 content 0 ?w3") blast
  let ?w5 = "step e PRFinal w4"
  from run pr ro fl fc rl
  have res: "(r, w') = (if interrupted ?w5 then (99, emit EvCloseR ?w5)
                 else if count \<noteq> 0 then (0, emit EvCloseR ?w5)
                 else (20, emit EvCloseR (say MsgErrReading ?w5)))"
    by (simp add: doRead_def Let_def)
  then have tr': "trace w' = trace w4 @ [EvCloseR]" and fs': "fs w' = fs w4"
    and int': "interrupted w' = interrupted ?w5"
    by (auto split: if_splits)
  from res have r99: "r = 99 \<longleftrightarrow> interrupted ?w5" and
    rr: "\<not> interrupted ?w5 \<longrightarrow> r = (if count \<noteq> 0 then 0 else 20)"
    by (auto split: if_splits)
  from read_loop_shape [OF rl]
  obtain cs tl where sh:
       "trace w4 = trace ?w3 @ map EvRead cs @ tl"
       "tl = [] \<or> tl = [EvReadErr]"
       "\<exists>sfx. content = concat cs @ sfx"
       "fs w4 = fs ?w3"
       "interrupted ?w3 \<longrightarrow> interrupted w4"
       "\<not> interrupted w4 \<longrightarrow> count = 0 + of_nat (length (concat cs))"
       "\<not> interrupted w4 \<and> (\<forall>j. \<not> read_fails e j) \<longrightarrow> concat cs = content \<and> tl = []"
       "\<not> read_fails e 0 \<and> content \<noteq> [] \<longrightarrow> concat cs \<noteq> []"
    by blast
  have a: "trace w' = trace w @ [EvPurge 0, EvOpenR True, EvNoCache 0] @ map EvRead cs @ tl @ [EvCloseR]"
    using tr' sh(1) by simp
  have c: "fs w' = fs w" using fs' sh(4) by simp
  have d: "interrupted w \<longrightarrow> interrupted w'" using int' sh(5) by simp
  have f: "r = 99 \<longleftrightarrow> interrupted w'" using r99 int' by simp
  have g: "\<not> interrupted w' \<longrightarrow> r = (if (of_nat (length (concat cs)) :: size_t) \<noteq> 0 then 0 else 20)"
    using rr int' sh(6) by simp
  have h: "\<not> interrupted w' \<and> (\<forall>j. \<not> read_fails e j) \<longrightarrow> concat cs = content \<and> tl = []"
    using int' sh(7) by simp
  show ?thesis
    apply (rule exI [of _ cs], rule exI [of _ tl])
    apply (intro conjI)
    subgoal by (rule a)
    subgoal by (rule sh(2))
    subgoal by (rule sh(3))
    subgoal by (rule c)
    subgoal by (rule d)
    subgoal by (rule f)
    subgoal by (rule g)
    subgoal by (rule h)
    subgoal by (rule sh(8))
    done
qed

subsection \<open>Argument parsing, main and the cleanup\<close>

lemma usage_simps [simp]:
  "fs (usage argv b w) = fs w"
  "trace (usage argv b w) = trace w"
  "interrupted (usage argv b w) = interrupted w"
  by (simp_all add: usage_def Let_def)

lemma cerr_usage:
  "cerr (usage argv b w) =
     cerr w @ (if b then [MsgBanner, MsgUsage (if argv \<noteq> [] then hd argv else ''wrdata''), MsgBlank]
               else [MsgUsage (if argv \<noteq> [] then hd argv else ''wrdata'')])"
  by (simp add: usage_def Let_def)

lemma parseArgs_fst: "fst (parseArgs argv w) = parsed argv"
  by (auto simp: parsed_def parseArgs_def Let_def split: sum.splits prod.splits)

lemma parseArgs_valid_world: "valid (parsed argv) \<Longrightarrow> snd (parseArgs argv w) = w"
  by (auto simp: parsed_def parseArgs_def Let_def Context_default_def split: sum.splits prod.splits if_splits)

lemma parseArgs_valid: "valid (parsed argv) \<Longrightarrow> parseArgs argv w = (parsed argv, w)"
  using parseArgs_fst [of argv w] parseArgs_valid_world [of argv w]
  by (cases "parseArgs argv w") simp

lemma parseArgs_world [simp]:
  "fs (snd (parseArgs argv w)) = fs w"
  "trace (snd (parseArgs argv w)) = trace w"
  "interrupted (snd (parseArgs argv w)) = interrupted w"
  by (auto simp: parseArgs_def Let_def split: sum.splits prod.splits)

lemma parsed_valid_iff:
  "valid (parsed argv) \<longleftrightarrow>
     2 \<le> length argv \<and> argv ! 1 \<noteq> [] \<and> hd (argv ! 1) \<noteq> CHR ''-''
     \<and> (2 < length argv \<longrightarrow> size_ok (argv ! 2))"
  by (auto simp: parsed_def parseArgs_def Let_def Context_default_def size_ok_def
           split: sum.splits prod.splits)

lemma parsed_not_created [simp]: "\<not> outfileCreated (parsed argv)"
  by (auto simp: parsed_def parseArgs_def Let_def Context_default_def split: sum.splits prod.splits)

lemma parsed_mb_default:
  "valid (parsed argv) \<Longrightarrow> length argv = 2 \<Longrightarrow> mb (parsed argv) = 2048"
  by (auto simp: parsed_def parseArgs_def Let_def Context_default_def split: sum.splits prod.splits)

lemma main_invalid:
  "\<not> valid (parsed argv) \<Longrightarrow>
     main e argv f = (1, parsed argv, snd (parseArgs argv (init_world f)))"
  using parseArgs_fst [of argv "init_world f"]
  by (cases "parseArgs argv (init_world f)") (simp add: main_def)

lemma main_valid:
  "valid (parsed argv) \<Longrightarrow> doWrite e (parsed argv) (init_world f) = (r1, p1, w1) \<Longrightarrow>
     main e argv f =
       (if r1 \<noteq> 0 then (r1, defer_RmOutfile e p1 w1)
        else (fst (doRead e p1 w1), defer_RmOutfile e p1 (snd (doRead e p1 w1))))"
  by (simp add: main_def parseArgs_valid split: prod.splits)

lemma defer_not_created: "\<not> outfileCreated p \<Longrightarrow> defer_RmOutfile e p w = (p, w)"
  by (simp add: defer_RmOutfile_def)

lemma defer_created:
  "outfileCreated p \<Longrightarrow> fs w (outfile p) = Some c \<Longrightarrow>
     defer_RmOutfile e p w =
       (if unlink_fails e
          then (p, say (MsgFailedRemove (outfile p)) (emit (EvUnlink False) (step e PUnlink w)))
        else (p\<lparr>outfileCreated := False\<rparr>,
              say (MsgRemoved (outfile p))
                (emit (EvUnlink True) ((step e PUnlink w)\<lparr>fs := (fs w)(outfile p := None)\<rparr>))))"
  by (simp add: defer_RmOutfile_def Let_def)

lemma phase_of_simps [simp]:
  "phase_of (EvOpenW b) = 0" "phase_of (EvWrite c) = 0" "phase_of EvWriteFail = 0"
  "phase_of (EvFlush b) = 0" "phase_of (EvCloseW b) = 0" "phase_of (EvPurge r) = 1"
  "phase_of (EvOpenR b) = 2" "phase_of (EvNoCache r) = 2" "phase_of (EvRead c) = 2"
  "phase_of EvReadErr = 2" "phase_of EvCloseR = 2" "phase_of (EvUnlink b) = 3"
  by (simp_all add: phase_of_def)

lemma doWrite_trace:
  assumes "doWrite e p w = (r, p', w')"
  shows "\<exists>evs. trace w' = trace w @ evs \<and> (\<forall>ev\<in>set evs. phase_of ev = 0)"
proof (cases "mb p * MB < BUFSZ")
  case True
  with assms show ?thesis by (auto simp: doWrite_small)
next
  case False
  note sz = this
  show ?thesis
  proof (cases "wopen_fails e")
    case True
    with sz assms have "trace w' = trace w @ [EvOpenW False]"
      by (auto simp: doWrite_open_fail)
    then show ?thesis by (intro exI [of _ "[EvOpenW False]"]) simp
  next
    case False
    from doWrite_opened [OF sz False assms] obtain k evs where
      tr: "trace w' = trace w @ EvOpenW True # replicate k (EvWrite (gen_buf e)) @ evs"
      and ev: "evs = [EvWriteFail] \<or> evs = [EvFlush False] \<or> evs = [EvFlush True, EvCloseW False]
               \<or> evs = [EvFlush True, EvCloseW True]"
      by blast
    show ?thesis
      apply (rule exI [of _ "EvOpenW True # replicate k (EvWrite (gen_buf e)) @ evs"])
      using tr ev by auto
  qed
qed

lemma doRead_trace:
  assumes "doRead e p w = (r, w')"
  shows "fs w' = fs w \<and> (interrupted w \<longrightarrow> interrupted w')
     \<and> (\<exists>evs. trace w' = trace w @ EvPurge (purge_res e) # evs
          \<and> (\<forall>ev\<in>set evs. phase_of ev = 2)
          \<and> (purge_res e \<noteq> 0 \<longrightarrow> evs = [] \<and> r = purge_res e)
          \<and> (purge_res e = 0 \<longrightarrow> (\<exists>b evs'. evs = EvOpenR b # evs')))"
proof (cases "purge_res e = 0")
  case False
  with assms have "r = purge_res e"
    "w' = say (MsgPurgeFailed (purge_res e)) (emit (EvPurge (purge_res e)) (step e PPurge w))"
    by (auto simp: doRead_purge_fail)
  then show ?thesis using False by simp
next
  case True
  note pr = this
  show ?thesis
  proof (cases "ropen_fails e \<or> fs w (outfile p) = None")
    case True
    from assms doRead_open_fail [OF pr True]
    have "w' = say MsgErrOpenRead (emit (EvOpenR False) (step e PROpen (emit (EvPurge 0) (step e PPurge w))))"
      by simp
    then show ?thesis using pr by auto
  next
    case False
    then obtain content where ro: "\<not> ropen_fails e" and fl: "fs w (outfile p) = Some content"
      by auto
    show ?thesis
    proof (cases "fcntl_res e = 0")
      case False
      from assms doRead_fcntl_fail [OF pr ro fl False]
      have "w' = emit EvCloseR (say (MsgFcntl (fcntl_res e))
              (emit (EvNoCache (fcntl_res e)) (step e PNoCache (emit (EvOpenR True)
                 (step e PROpen (emit (EvPurge 0) (step e PPurge w)))))))"
        by simp
      then show ?thesis using pr by auto
    next
      case True
      from doRead_reading [OF pr ro fl True assms] obtain cs tl where
        tr: "trace w' = trace w @ [EvPurge 0, EvOpenR True, EvNoCache 0] @ map EvRead cs @ tl @ [EvCloseR]"
        and tl: "tl = [] \<or> tl = [EvReadErr]"
        and rest: "fs w' = fs w" "interrupted w \<longrightarrow> interrupted w'"
        by blast
      have "\<exists>evs. trace w' = trace w @ EvPurge (purge_res e) # evs
          \<and> (\<forall>ev\<in>set evs. phase_of ev = 2)
          \<and> (purge_res e \<noteq> 0 \<longrightarrow> evs = [] \<and> r = purge_res e)
          \<and> (purge_res e = 0 \<longrightarrow> (\<exists>b evs'. evs = EvOpenR b # evs'))"
        apply (rule exI [of _ "[EvOpenR True, EvNoCache 0] @ map EvRead cs @ tl @ [EvCloseR]"])
        using tr tl pr by auto
      with rest show ?thesis by blast
    qed
  qed
qed

lemma main_opened:
  assumes v: "valid (parsed argv)" and sz: "\<not> mb (parsed argv) * MB < BUFSZ"
    and op: "\<not> wopen_fails e"
    and dw: "doWrite e (parsed argv) (init_world f) = (r1, p1, w1)"
    and w2: "w2 = (if r1 \<noteq> 0 then w1 else snd (doRead e p1 w1))"
  shows "main e argv f =
      (if r1 \<noteq> 0 then r1 else fst (doRead e p1 w1),
       if unlink_fails e then p1 else p1\<lparr>outfileCreated := False\<rparr>,
       if unlink_fails e
         then say (MsgFailedRemove (outfile p1)) (emit (EvUnlink False) (step e PUnlink w2))
       else say (MsgRemoved (outfile p1))
              (emit (EvUnlink True) ((step e PUnlink w2)\<lparr>fs := (fs w2)(outfile p1 := None)\<rparr>)))"
proof -
  from doWrite_opened [OF sz op dw] obtain k where
    p1: "p1 = (parsed argv)\<lparr>outfileCreated := True\<rparr>"
    and fs1: "fs w1 = (fs (init_world f))(outfile (parsed argv) \<mapsto> concat (replicate k (gen_buf e)))"
    by blast
  have cr: "outfileCreated p1" using p1 by simp
  have "fs w2 = fs w1"
    using w2 doRead_trace [of e p1 w1 "fst (doRead e p1 w1)" "snd (doRead e p1 w1)"] by simp
  then have fl: "fs w2 (outfile p1) = Some (concat (replicate k (gen_buf e)))"
    using fs1 p1 by simp
  show ?thesis
    using main_valid [OF v dw] defer_created [OF cr fl, of e]
    by (cases "r1 = 0") (simp_all add: w2)
qed

lemmas stol_defs = stol_def isspace_c_def isdigit_c_def digits_val_def LONG_MAX_def LONG_MIN_def

lemma main_small:
  "valid (parsed argv) \<Longrightarrow> mb (parsed argv) * MB < BUFSZ \<Longrightarrow>
     main e argv f = (2, parsed argv, say (MsgInvalidSize (mb (parsed argv) * MB)) (init_world f))"
  by (simp add: main_def parseArgs_valid doWrite_small defer_not_created)

lemma parsed_wrap:
  "parsed [''sbench'', ''/tmp/t1'', ''17592186044416''] =
     \<lparr>outfile = ''/tmp/t1'', mb = 17592186044416, valid = True, outfileCreated = False\<rparr>"
  by (simp add: parsed_def parseArgs_def Context_default_def stol_defs)

lemma wrap_zero: "(17592186044416 :: size_t) * MB = 0"
  by (simp add: MB_def)

lemma wrap_small: "(17592186044416 :: size_t) * MB < BUFSZ"
  by (simp add: wrap_zero) (simp add: BUFSZ_def MB_def)

lemma cerr_parse_invalid:
  assumes "\<not> valid (parsed argv)"
  shows "cerr (snd (parseArgs argv (init_world f))) =
    (if length argv < 2 \<or> argv ! 1 = [] \<or> hd (argv ! 1) = CHR ''-''
       then [MsgBanner, MsgUsage (if argv \<noteq> [] then hd argv else ''wrdata''), MsgBlank]
     else [MsgParseFail (case stol (argv ! 2) of Inl err \<Rightarrow> err
                          | Inr (v, pos) \<Rightarrow> if v \<le> 0 then NotPositive else ExtraChars),
           MsgUsage (hd argv)])"
  using assms
  by (auto simp: parsed_def parseArgs_def Let_def Context_default_def cerr_usage init_world_def
           split: sum.splits prod.splits if_splits)

subsection \<open>Runs in which no signal arrives\<close>

lemma gen_buf_nonempty: "gen_buf e \<noteq> []"
  using length_gen_buf [of e] BUFSZ_pos by auto

lemma nbufs_bound: "nbufs p * unat BUFSZ \<le> unat (mb p * MB)"
  by (simp add: nbufs_def unat_div)

lemma nbufs_bytes_lt: "nbufs p * unat BUFSZ < 2 ^ 64"
proof -
  have "unat (mb p * MB) < 2 ^ 64"
    using unsigned_less [of "mb p * MB", where 'a = nat] by simp
  with nbufs_bound [of p] show ?thesis by simp
qed

lemma nbufs_pos: "\<not> mb p * MB < BUFSZ \<Longrightarrow> 0 < nbufs p"
  by (simp add: nbufs_def unat_div word_less_nat_alt div_greater_zero_iff BUFSZ_pos)

lemma write_loop_unfold:
  "write_loop e path buf M i w =
     (if i < M then
        if interrupted (step e (PWCheck i) w) then (False, step e (PWCheck i) w)
        else if write_fails e i
          then (True, emit EvWriteFail (step e (PWWrite i) (step e (PWCheck i) w)))
        else write_loop e path buf M (Suc i)
               (emit (EvWrite buf)
                 ((step e (PWWrite i) (step e (PWCheck i) w))
                    \<lparr>fs := (fs w)(path \<mapsto> (case fs w path of None \<Rightarrow> [] | Some c \<Rightarrow> c) @ buf)\<rparr>))
      else (False, w))"
  by (subst write_loop.simps) (simp add: Let_def)

lemma write_loop_interrupted:
  "interrupted w \<Longrightarrow>
     write_loop e path buf M i w = (False, if i < M then step e (PWCheck i) w else w)"
  by (subst write_loop_unfold) simp

lemma write_loop_clean:
  assumes "\<not> interrupted w" and "fs w path = Some c" and "i + n \<le> M"
    and "\<forall>j. i \<le> j \<and> j < i + n \<longrightarrow>
           \<not> signal_at e (PWCheck j) \<and> \<not> signal_at e (PWWrite j) \<and> \<not> write_fails e j"
  shows "write_loop e path buf M i w =
     write_loop e path buf M (i + n)
       (w\<lparr>fs := (fs w)(path \<mapsto> c @ concat (replicate n buf)),
          trace := trace w @ replicate n (EvWrite buf)\<rparr>)"
  using assms
proof (induction n arbitrary: i w c)
  case 0
  then have "(fs w)(path \<mapsto> c) = fs w" by (simp add: map_upd_triv)
  then show ?case by simp
next
  case (Suc n)
  let ?w3 = "emit (EvWrite buf) (w\<lparr>fs := (fs w)(path \<mapsto> c @ buf)\<rparr>)"
  from Suc.prems have q: "\<not> signal_at e (PWCheck i)" "\<not> signal_at e (PWWrite i)" "\<not> write_fails e i"
    and lt: "i < M" by auto
  have one: "write_loop e path buf M i w = write_loop e path buf M (Suc i) ?w3"
    using q lt Suc.prems(1,2) by (subst write_loop_unfold) (simp add: step_quiet)
  have ni: "\<not> interrupted ?w3" using Suc.prems(1) by simp
  have f3: "fs ?w3 path = Some (c @ buf)" by simp
  have le: "Suc i + n \<le> M" using Suc.prems(3) by simp
  have qs: "\<forall>j. Suc i \<le> j \<and> j < Suc i + n \<longrightarrow>
           \<not> signal_at e (PWCheck j) \<and> \<not> signal_at e (PWWrite j) \<and> \<not> write_fails e j"
    using Suc.prems(4) by simp
  have w: "?w3\<lparr>fs := (fs ?w3)(path \<mapsto> (c @ buf) @ concat (replicate n buf)),
              trace := trace ?w3 @ replicate n (EvWrite buf)\<rparr>
         = w\<lparr>fs := (fs w)(path \<mapsto> c @ concat (replicate (Suc n) buf)),
              trace := trace w @ replicate (Suc n) (EvWrite buf)\<rparr>"
    by (simp add: emit_def)
  have "write_loop e path buf M i w = write_loop e path buf M (Suc i) ?w3"
    by (rule one)
  also have "\<dots> = write_loop e path buf M (Suc i + n)
       (?w3\<lparr>fs := (fs ?w3)(path \<mapsto> (c @ buf) @ concat (replicate n buf)),
            trace := trace ?w3 @ replicate n (EvWrite buf)\<rparr>)"
    by (rule Suc.IH [OF ni f3 le qs])
  also have "\<dots> = write_loop e path buf M (i + Suc n)
       (w\<lparr>fs := (fs w)(path \<mapsto> c @ concat (replicate (Suc n) buf)),
          trace := trace w @ replicate (Suc n) (EvWrite buf)\<rparr>)"
    by (simp only: w add_Suc add_Suc_right)
  finally show ?case .
qed

lemma read_loop_clean:
  assumes "\<not> interrupted w" and "length buf = unat BUFSZ"
    and "\<forall>j. k \<le> j \<and> j < k + n \<longrightarrow>
           \<not> read_fails e j \<and> \<not> signal_at e (PRead j) \<and> \<not> signal_at e (PRCheck j)"
  shows "read_loop e k (concat (replicate n buf) @ rest) count w =
     read_loop e (k + n) rest (count + of_nat (n * unat BUFSZ))
       (w\<lparr>trace := trace w @ map EvRead (replicate n buf)\<rparr>)"
  using assms
proof (induction n arbitrary: k count w)
  case 0
  then show ?case by simp
next
  case (Suc n)
  let ?w3 = "emit (EvRead buf) w"
  from Suc.prems have q: "\<not> read_fails e k" "\<not> signal_at e (PRead k)" "\<not> signal_at e (PRCheck k)"
    by auto
  have ne: "buf \<noteq> []" using Suc.prems(2) BUFSZ_pos by auto
  have one: "read_loop e k (concat (replicate (Suc n) buf) @ rest) count w =
             read_loop e (Suc k) (concat (replicate n buf) @ rest) (count + of_nat (unat BUFSZ)) ?w3"
    using q ne Suc.prems(1,2) by (subst read_loop_unfold) (simp add: step_quiet)
  have ni: "\<not> interrupted ?w3" using Suc.prems(1) by simp
  have qs: "\<forall>j. Suc k \<le> j \<and> j < Suc k + n \<longrightarrow>
           \<not> read_fails e j \<and> \<not> signal_at e (PRead j) \<and> \<not> signal_at e (PRCheck j)"
    using Suc.prems(3) by simp
  have w: "?w3\<lparr>trace := trace ?w3 @ map EvRead (replicate n buf)\<rparr>
         = w\<lparr>trace := trace w @ map EvRead (replicate (Suc n) buf)\<rparr>"
    by (simp add: emit_def)
  have "read_loop e k (concat (replicate (Suc n) buf) @ rest) count w =
        read_loop e (Suc k) (concat (replicate n buf) @ rest) (count + of_nat (unat BUFSZ)) ?w3"
    by (rule one)
  also have "\<dots> = read_loop e (Suc k + n) rest (count + of_nat (unat BUFSZ) + of_nat (n * unat BUFSZ))
       (?w3\<lparr>trace := trace ?w3 @ map EvRead (replicate n buf)\<rparr>)"
    by (rule Suc.IH [OF ni Suc.prems(2) qs])
  also have "\<dots> = read_loop e (k + Suc n) rest (count + of_nat (Suc n * unat BUFSZ))
       (w\<lparr>trace := trace w @ map EvRead (replicate (Suc n) buf)\<rparr>)"
    by (simp only: w) (simp add: algebra_simps)
  finally show ?case .
qed

lemma count_nonzero:
  "0 < n \<Longrightarrow> n < 2 ^ 64 \<Longrightarrow> (of_nat n :: size_t) \<noteq> 0"
  using of_nat_neq_0 [of n, where 'a = 64] by simp

lemma doWrite_clean:
  assumes sz: "\<not> mb p * MB < BUFSZ" and ni: "\<not> interrupted w"
    and q: "\<And>pt. \<not> signal_at e pt"
    and ok: "\<not> wopen_fails e" "\<forall>j. j < nbufs p \<longrightarrow> \<not> write_fails e j"
            "\<not> flush_fails e" "\<not> close_fails e"
  shows "doWrite e p w =
     (0, p\<lparr>outfileCreated := True\<rparr>,
      w\<lparr>fs := (fs w)(outfile p \<mapsto> concat (replicate (nbufs p) (gen_buf e))),
        trace := trace w @ EvOpenW True # replicate (nbufs p) (EvWrite (gen_buf e))
                   @ [EvFlush True, EvCloseW True]\<rparr>)"
proof -
  let ?w2 = "emit (EvOpenW True) (w\<lparr>fs := (fs w)(outfile p \<mapsto> [])\<rparr>)"
  let ?w3 = "?w2\<lparr>fs := (fs ?w2)(outfile p \<mapsto> [] @ concat (replicate (nbufs p) (gen_buf e))),
               trace := trace ?w2 @ replicate (nbufs p) (EvWrite (gen_buf e))\<rparr>"
  have ni2: "\<not> interrupted ?w2" using ni by simp
  have f2: "fs ?w2 (outfile p) = Some []" by simp
  have qs: "\<forall>j. 0 \<le> j \<and> j < 0 + nbufs p \<longrightarrow>
           \<not> signal_at e (PWCheck j) \<and> \<not> signal_at e (PWWrite j) \<and> \<not> write_fails e j"
    using q ok(2) by simp
  have "write_loop e (outfile p) (gen_buf e) (nbufs p) 0 ?w2 =
        write_loop e (outfile p) (gen_buf e) (nbufs p) (0 + nbufs p) ?w3"
    by (rule write_loop_clean [OF ni2 f2 _ qs]) simp
  also have "\<dots> = (False, ?w3)"
    by (subst write_loop_unfold) simp
  finally have wl: "write_loop e (outfile p) (gen_buf e) (unat (mb p * MB div BUFSZ)) 0 ?w2 = (False, ?w3)"
    by (simp add: nbufs_def)
  show ?thesis
    using sz ni ok wl by (simp add: doWrite_def Let_def step_quiet [OF q] emit_def)
qed

lemma doRead_clean:
  assumes ni: "\<not> interrupted w" and q: "\<And>pt. \<not> signal_at e pt"
    and ok: "purge_res e = 0" "\<not> ropen_fails e" "fcntl_res e = 0"
    and fl: "fs w (outfile p) = Some (concat (replicate n buf))"
    and len: "length buf = unat BUFSZ" and n: "0 < n" "n * unat BUFSZ < 2 ^ 64"
    and rd: "\<forall>j. j \<le> n \<longrightarrow> \<not> read_fails e j"
  shows "doRead e p w =
     (0, w\<lparr>trace := trace w @ [EvPurge 0, EvOpenR True, EvNoCache 0]
                    @ map EvRead (replicate n buf) @ [EvRead [], EvCloseR]\<rparr>)"
proof -
  let ?w3 = "emit (EvNoCache 0) (emit (EvOpenR True) (emit (EvPurge 0) w))"
  let ?w4 = "?w3\<lparr>trace := trace ?w3 @ map EvRead (replicate n buf)\<rparr>"
  have ni3: "\<not> interrupted ?w3" using ni by simp
  have qs: "\<forall>j. 0 \<le> j \<and> j < 0 + n \<longrightarrow>
           \<not> read_fails e j \<and> \<not> signal_at e (PRead j) \<and> \<not> signal_at e (PRCheck j)"
    using q rd by simp
  have "read_loop e 0 (concat (replicate n buf) @ []) 0 ?w3 =
        read_loop e (0 + n) [] (0 + of_nat (n * unat BUFSZ)) ?w4"
    by (rule read_loop_clean [OF ni3 len qs])
  also have "\<dots> = (of_nat (n * unat BUFSZ), emit (EvRead []) ?w4)"
    using rd by (subst read_loop_unfold) (simp add: step_quiet [OF q])
  finally have rl: "read_loop e 0 (concat (replicate n buf)) 0 ?w3 =
      (of_nat (n * unat BUFSZ), emit (EvRead []) ?w4)"
    by simp
  have cnt: "(of_nat (n * unat BUFSZ) :: size_t) \<noteq> 0"
    using n BUFSZ_pos by (intro count_nonzero) simp_all
  show ?thesis
    using ni ok fl rl cnt
    by (simp add: doRead_def Let_def step_quiet [OF q] emit_def)
qed

lemma doRead_read_error:
  assumes ni: "\<not> interrupted w" and q: "\<And>pt. \<not> signal_at e pt"
    and ok: "purge_res e = 0" "\<not> ropen_fails e" "fcntl_res e = 0"
    and fl: "fs w (outfile p) = Some (concat (replicate m buf) @ rest)"
    and len: "length buf = unat BUFSZ" and m: "0 < m" "m * unat BUFSZ < 2 ^ 64"
    and rd: "\<forall>j. j < m \<longrightarrow> \<not> read_fails e j" "read_fails e m"
  shows "doRead e p w =
     (0, w\<lparr>trace := trace w @ [EvPurge 0, EvOpenR True, EvNoCache 0]
                    @ map EvRead (replicate m buf) @ [EvReadErr, EvCloseR]\<rparr>)"
proof -
  let ?w3 = "emit (EvNoCache 0) (emit (EvOpenR True) (emit (EvPurge 0) w))"
  let ?w4 = "?w3\<lparr>trace := trace ?w3 @ map EvRead (replicate m buf)\<rparr>"
  have ni3: "\<not> interrupted ?w3" using ni by simp
  have qs: "\<forall>j. 0 \<le> j \<and> j < 0 + m \<longrightarrow>
           \<not> read_fails e j \<and> \<not> signal_at e (PRead j) \<and> \<not> signal_at e (PRCheck j)"
    using q rd by simp
  have "read_loop e 0 (concat (replicate m buf) @ rest) 0 ?w3 =
        read_loop e (0 + m) rest (0 + of_nat (m * unat BUFSZ)) ?w4"
    by (rule read_loop_clean [OF ni3 len qs])
  also have "\<dots> = (of_nat (m * unat BUFSZ), emit EvReadErr ?w4)"
    using rd by (subst read_loop_unfold) (simp add: step_quiet [OF q])
  finally have rl: "read_loop e 0 (concat (replicate m buf) @ rest) 0 ?w3 =
      (of_nat (m * unat BUFSZ), emit EvReadErr ?w4)"
    by simp
  have cnt: "(of_nat (m * unat BUFSZ) :: size_t) \<noteq> 0"
    using m BUFSZ_pos by (intro count_nonzero) simp_all
  show ?thesis
    using ni ok fl rl cnt
    by (simp add: doRead_def Let_def step_quiet [OF q] emit_def)
qed

lemma concat_replicate_single: "concat (replicate k [x]) = replicate k x"
  by (induction k) simp_all

lemma writes_of_simps [simp]:
  "writes_of [] = []"
  "writes_of (ev # tr) = (case ev of EvWrite c \<Rightarrow> [c] | _ \<Rightarrow> []) @ writes_of tr"
  "writes_of (tr @ tr') = writes_of tr @ writes_of tr'"
  "writes_of (replicate k (EvWrite c)) = replicate k c"
  "writes_of (map EvRead cs) = []"
  by (simp_all add: writes_of_def map_replicate concat_replicate_single comp_def)

lemma reads_of_simps [simp]:
  "reads_of [] = []"
  "reads_of (ev # tr) = (case ev of EvRead c \<Rightarrow> [c] | _ \<Rightarrow> []) @ reads_of tr"
  "reads_of (tr @ tr') = reads_of tr @ reads_of tr'"
  "reads_of (replicate k (EvWrite c)) = []"
  "reads_of (map EvRead cs) = cs"
  by (simp_all add: reads_of_def map_replicate comp_def)

lemma unlinks_of_simps [simp]:
  "unlinks_of [] = []"
  "unlinks_of (ev # tr) = (case ev of EvUnlink b \<Rightarrow> [b] | _ \<Rightarrow> []) @ unlinks_of tr"
  "unlinks_of (tr @ tr') = unlinks_of tr @ unlinks_of tr'"
  by (simp_all add: unlinks_of_def)

lemma unlinks_of_phase:
  "\<forall>ev\<in>set tr. phase_of ev \<noteq> 3 \<Longrightarrow> unlinks_of tr = []"
  by (induction tr) (auto split: event.splits)

lemma main_clean:
  assumes v: "valid (parsed argv)" and sz: "\<not> mb (parsed argv) * MB < BUFSZ"
    and q: "\<And>pt. \<not> signal_at e pt"
    and okw: "\<not> wopen_fails e" "\<forall>j. j < nbufs (parsed argv) \<longrightarrow> \<not> write_fails e j"
            "\<not> flush_fails e" "\<not> close_fails e"
    and okr: "purge_res e = 0" "\<not> ropen_fails e" "fcntl_res e = 0"
            "\<forall>j. j \<le> nbufs (parsed argv) \<longrightarrow> \<not> read_fails e j"
    and oku: "\<not> unlink_fails e"
  shows "main e argv f =
     (0, (parsed argv)\<lparr>outfileCreated := False\<rparr>,
      \<lparr>fs = f(outfile (parsed argv) := None), interrupted = False,
       trace = EvOpenW True # replicate (nbufs (parsed argv)) (EvWrite (gen_buf e))
          @ [EvFlush True, EvCloseW True, EvPurge 0, EvOpenR True, EvNoCache 0]
          @ map EvRead (replicate (nbufs (parsed argv)) (gen_buf e))
          @ [EvRead [], EvCloseR, EvUnlink True],
       cerr = [MsgRemoved (outfile (parsed argv))]\<rparr>)"
proof -
  let ?p = "parsed argv"
  let ?p1 = "?p\<lparr>outfileCreated := True\<rparr>"
  let ?w1 = "(init_world f)\<lparr>fs := (fs (init_world f))(outfile ?p \<mapsto> concat (replicate (nbufs ?p) (gen_buf e))),
        trace := trace (init_world f) @ EvOpenW True # replicate (nbufs ?p) (EvWrite (gen_buf e))
                   @ [EvFlush True, EvCloseW True]\<rparr>"
  let ?w2 = "?w1\<lparr>trace := trace ?w1 @ [EvPurge 0, EvOpenR True, EvNoCache 0]
                    @ map EvRead (replicate (nbufs ?p) (gen_buf e)) @ [EvRead [], EvCloseR]\<rparr>"
  have ni: "\<not> interrupted (init_world f)" by (simp add: init_world_def)
  have dw: "doWrite e ?p (init_world f) = (0, ?p1, ?w1)"
    by (rule doWrite_clean [OF sz ni q okw])
  have ni1: "\<not> interrupted ?w1" by (simp add: init_world_def)
  have fl: "fs ?w1 (outfile ?p1) = Some (concat (replicate (nbufs ?p) (gen_buf e)))"
    by simp
  have dr: "doRead e ?p1 ?w1 = (0, ?w2)"
    by (rule doRead_clean [OF ni1 q okr(1-3) fl length_gen_buf nbufs_pos [OF sz] nbufs_bytes_lt okr(4)])
  show ?thesis
    using main_opened [OF v sz okw(1) dw refl] dr oku
    by (simp add: step_quiet [OF q] emit_def say_def init_world_def)
qed

lemma quiet_env_simps [simp]:
  "\<not> signal_at quiet_env pt" "\<not> wopen_fails quiet_env" "\<not> write_fails quiet_env j"
  "\<not> flush_fails quiet_env" "\<not> close_fails quiet_env" "purge_res quiet_env = 0"
  "\<not> ropen_fails quiet_env" "fcntl_res quiet_env = 0" "\<not> read_fails quiet_env j"
  "\<not> unlink_fails quiet_env"
  by (simp_all add: quiet_env_def)

lemma parsed_wrap1:
  "parsed [''sbench'', ''/tmp/t1'', ''17592186044417''] =
     \<lparr>outfile = ''/tmp/t1'', mb = 17592186044417, valid = True, outfileCreated = False\<rparr>"
  by (simp add: parsed_def parseArgs_def Context_default_def stol_defs)

lemma wrap1_bytes: "(17592186044417 :: size_t) * MB = 1048576"
  by (simp add: MB_def)

lemma wrap1_not_small: "\<not> (17592186044417 :: size_t) * MB < BUFSZ"
  by (simp add: wrap1_bytes) (simp add: BUFSZ_def MB_def)

lemma wrap1_nbufs: "nbufs (parsed [''sbench'', ''/tmp/t1'', ''17592186044417'']) = 1"
  by (simp add: nbufs_def parsed_wrap1 wrap1_bytes) (simp add: BUFSZ_def MB_def)

lemma parsed_two:
  "parsed [''sbench'', ''/tmp/t1'', ''2''] =
     \<lparr>outfile = ''/tmp/t1'', mb = 2, valid = True, outfileCreated = False\<rparr>"
  by (simp add: parsed_def parseArgs_def Context_default_def stol_defs)

lemma two_not_small: "\<not> (2 :: size_t) * MB < BUFSZ"
  by (simp add: BUFSZ_def MB_def)

lemma two_nbufs: "nbufs (parsed [''sbench'', ''/tmp/t1'', ''2'']) = 2"
  by (simp add: nbufs_def parsed_two) (simp add: BUFSZ_def MB_def)

lemma unat_bytes: "unat (mb p * MB) = (unat (mb p) * 2 ^ 20) mod 2 ^ 64"
  by (simp add: unat_word_ariths MB_def)

lemma nbufs_eq: "nbufs p = ((unat (mb p) * 2 ^ 20) mod 2 ^ 64) div 2 ^ 20"
  by (simp add: nbufs_def unat_div unat_bytes unat_BUFSZ)

lemma nbufs_no_wrap: "unat (mb p) < 2 ^ 44 \<Longrightarrow> nbufs p = unat (mb p)"
  by (simp add: nbufs_eq)

lemma doWrite_zero_opened:
  assumes "doWrite e p w = (0, p', w')"
  shows "\<not> mb p * MB < BUFSZ \<and> \<not> wopen_fails e"
proof -
  have "\<not> mb p * MB < BUFSZ"
    using assms by (auto simp: doWrite_small)
  moreover from this have "\<not> wopen_fails e"
    using assms by (auto simp: doWrite_open_fail)
  ultimately show ?thesis by simp
qed

lemma doWrite_zero:
  assumes "doWrite e p w = (0, p', w')"
  shows "trace w' = trace w @ EvOpenW True # replicate (nbufs p) (EvWrite (gen_buf e))
                      @ [EvFlush True, EvCloseW True]
     \<and> fs w' = (fs w)(outfile p \<mapsto> concat (replicate (nbufs p) (gen_buf e)))
     \<and> p' = p\<lparr>outfileCreated := True\<rparr> \<and> \<not> interrupted w'"
proof -
  from doWrite_zero_opened [OF assms] have sz: "\<not> mb p * MB < BUFSZ" and op: "\<not> wopen_fails e"
    by simp_all
  from doWrite_opened [OF sz op assms] show ?thesis by auto
qed

subsection \<open>The shape of a run\<close>

lemma main_open_fail:
  "valid (parsed argv) \<Longrightarrow> \<not> mb (parsed argv) * MB < BUFSZ \<Longrightarrow> wopen_fails e \<Longrightarrow>
     main e argv f =
       (3, parsed argv,
        say (MsgErrWrite ''opening'' (outfile (parsed argv)))
          (emit (EvOpenW False) (step e PWOpen (init_world f))))"
  by (simp add: main_def parseArgs_valid doWrite_open_fail defer_not_created)

lemma run_trace_invalid: "\<not> valid (parsed argv) \<Longrightarrow> run_trace e argv f = []"
  by (simp add: run_trace_def final_world_def main_invalid init_world_def)


lemma run_shape:
  assumes v: "valid (parsed argv)"
    and dw: "doWrite e (parsed argv) (init_world f) = (r1, p1, w1)"
  shows "\<exists>wevs revs uevs. run_trace e argv f = wevs @ revs @ uevs
     \<and> trace w1 = wevs
     \<and> (\<forall>ev\<in>set wevs. phase_of ev = 0)
     \<and> (r1 \<noteq> 0 \<longrightarrow> revs = [] \<and> exit_code e argv f = r1)
     \<and> (r1 = 0 \<longrightarrow> exit_code e argv f = fst (doRead e p1 w1)
          \<and> (\<exists>evs. revs = EvPurge (purge_res e) # evs \<and> (\<forall>ev\<in>set evs. phase_of ev = 2)
                \<and> (purge_res e \<noteq> 0 \<longrightarrow> evs = [] \<and> exit_code e argv f = purge_res e)
                \<and> (purge_res e = 0 \<longrightarrow> (\<exists>b evs'. evs = EvOpenR b # evs'))))
     \<and> uevs = (if outfileCreated p1 then [EvUnlink (\<not> unlink_fails e)] else [])"
proof -
  let ?p = "parsed argv"
  from doWrite_trace [OF dw] obtain wevs where
    wt: "trace w1 = wevs" and wp: "\<forall>ev\<in>set wevs. phase_of ev = 0"
    by (auto simp: init_world_def)
  define w2 where "w2 = (if r1 \<noteq> 0 then w1 else snd (doRead e p1 w1))"
  define revs where "revs = drop (length wevs) (trace w2)"
  have rd: "\<exists>evs. trace (snd (doRead e p1 w1)) = trace w1 @ EvPurge (purge_res e) # evs
          \<and> (\<forall>ev\<in>set evs. phase_of ev = 2)
          \<and> (purge_res e \<noteq> 0 \<longrightarrow> evs = [] \<and> fst (doRead e p1 w1) = purge_res e)
          \<and> (purge_res e = 0 \<longrightarrow> (\<exists>b evs'. evs = EvOpenR b # evs'))"
    using doRead_trace [of e p1 w1 "fst (doRead e p1 w1)" "snd (doRead e p1 w1)"] by simp
  have t2: "trace w2 = wevs @ revs"
    using rd wt by (auto simp: w2_def revs_def)
  have r0: "r1 \<noteq> 0 \<longrightarrow> revs = []"
    using wt by (simp add: w2_def revs_def)
  have r1: "r1 = 0 \<longrightarrow> (\<exists>evs. revs = EvPurge (purge_res e) # evs \<and> (\<forall>ev\<in>set evs. phase_of ev = 2)
                \<and> (purge_res e \<noteq> 0 \<longrightarrow> evs = [] \<and> fst (doRead e p1 w1) = purge_res e)
                \<and> (purge_res e = 0 \<longrightarrow> (\<exists>b evs'. evs = EvOpenR b # evs')))"
    using rd wt by (auto simp: w2_def revs_def)
  have ex: "exit_code e argv f = (if r1 \<noteq> 0 then r1 else fst (doRead e p1 w1))"
    using main_valid [OF v dw] by (simp add: exit_code_def)
  have fin: "run_trace e argv f = trace w2 @ (if outfileCreated p1 then [EvUnlink (\<not> unlink_fails e)] else [])"
  proof (cases "\<not> mb ?p * MB < BUFSZ \<and> \<not> wopen_fails e")
    case True
    then have sz: "\<not> mb ?p * MB < BUFSZ" and op: "\<not> wopen_fails e" by simp_all
    from doWrite_opened [OF sz op dw] have cr: "outfileCreated p1" by auto
    show ?thesis
      using main_opened [OF v sz op dw w2_def] cr
      by (simp add: run_trace_def final_world_def)
  next
    case False
    then have "p1 = ?p"
      using dw by (cases "mb ?p * MB < BUFSZ") (auto simp: doWrite_small doWrite_open_fail)
    then have nc: "\<not> outfileCreated p1" by simp
    show ?thesis
      using main_valid [OF v dw] nc
      by (simp add: run_trace_def final_world_def defer_not_created w2_def)
  qed
  show ?thesis
    apply (rule exI [of _ wevs], rule exI [of _ revs],
           rule exI [of _ "if outfileCreated p1 then [EvUnlink (\<not> unlink_fails e)] else []"])
    apply (intro conjI)
    subgoal using fin t2 by simp
    subgoal by (rule wt)
    subgoal by (rule wp)
    subgoal using r0 ex by simp
    subgoal using r1 ex by auto
    subgoal by simp
    done
qed

lemma write_result_clean:
  assumes "\<not> mb (parsed argv) * MB < BUFSZ" and "\<And>pt. \<not> signal_at e pt"
    and "\<not> wopen_fails e" "\<forall>j. j < nbufs (parsed argv) \<longrightarrow> \<not> write_fails e j"
        "\<not> flush_fails e" "\<not> close_fails e"
  shows "write_result e argv f = 0"
proof -
  have ni: "\<not> interrupted (init_world f)" by (simp add: init_world_def)
  show ?thesis
    unfolding write_result_def
    by (subst doWrite_clean [OF assms(1) ni assms(2-)]) simp
qed

lemma write_result_open_fail:
  "\<not> mb (parsed argv) * MB < BUFSZ \<Longrightarrow> wopen_fails e \<Longrightarrow> write_result e argv f = 3"
  by (simp add: write_result_def doWrite_open_fail)

lemma two_valid: "valid (parsed [''sbench'', ''/tmp/t1'', ''2''])"
  by (simp add: parsed_two)

lemma two_size: "\<not> mb (parsed [''sbench'', ''/tmp/t1'', ''2'']) * MB < BUFSZ"
  using two_not_small by (simp add: parsed_two)

subsection \<open>The result of the unlink does not reach the exit value\<close>

lemma step_unlink [simp]: "step (e\<lparr>unlink_fails := b\<rparr>) pt w = step e pt w"
  by (simp add: step_def)

lemma gen_buf_unlink [simp]: "gen_buf (e\<lparr>unlink_fails := b\<rparr>) = gen_buf e"
  by (simp add: gen_buf_def)

lemma write_loop_unlink [simp]:
  "write_loop (e\<lparr>unlink_fails := b\<rparr>) path buf M i w = write_loop e path buf M i w"
proof (induction e path buf M i w rule: write_loop.induct)
  case (1 e path buf M i w)
  have L: "write_loop (e\<lparr>unlink_fails := b\<rparr>) path buf M i w =
     (if i < M then
        if interrupted (step e (PWCheck i) w) then (False, step e (PWCheck i) w)
        else if write_fails e i
          then (True, emit EvWriteFail (step e (PWWrite i) (step e (PWCheck i) w)))
        else write_loop (e\<lparr>unlink_fails := b\<rparr>) path buf M (Suc i)
               (emit (EvWrite buf)
                 ((step e (PWWrite i) (step e (PWCheck i) w))
                    \<lparr>fs := (fs w)(path \<mapsto> (case fs w path of None \<Rightarrow> [] | Some c \<Rightarrow> c) @ buf)\<rparr>))
      else (False, w))"
    by (subst write_loop_unfold) simp
  show ?case
    unfolding L using "1.IH"
    by (subst (2) write_loop_unfold) (auto simp: Let_def)
qed

lemma doWrite_unlink [simp]: "doWrite (e\<lparr>unlink_fails := b\<rparr>) p w = doWrite e p w"
  by (simp add: doWrite_def Let_def split: prod.splits)

lemma read_loop_unlink [simp]:
  "read_loop (e\<lparr>unlink_fails := b\<rparr>) k rest count w = read_loop e k rest count w"
proof (induction e k rest count w rule: read_loop.induct)
  case (1 e k rest count w)
  have L: "read_loop (e\<lparr>unlink_fails := b\<rparr>) k rest count w =
     (if read_fails e k then (count, emit EvReadErr (step e (PRead k) w))
      else if rest = [] then (count, emit (EvRead []) (step e (PRead k) w))
      else if interrupted (step e (PRCheck k) (emit (EvRead (take (unat BUFSZ) rest)) (step e (PRead k) w)))
        then (count, step e (PRCheck k) (emit (EvRead (take (unat BUFSZ) rest)) (step e (PRead k) w)))
      else read_loop (e\<lparr>unlink_fails := b\<rparr>) (Suc k) (drop (unat BUFSZ) rest)
             (count + of_nat (length (take (unat BUFSZ) rest)))
             (step e (PRCheck k) (emit (EvRead (take (unat BUFSZ) rest)) (step e (PRead k) w))))"
    by (subst read_loop_unfold) simp
  have ne: "rest \<noteq> [] \<Longrightarrow> take (unat BUFSZ) rest \<noteq> []"
    using BUFSZ_pos by simp
  show ?case
    unfolding L using "1.IH" ne
    by (subst (2) read_loop_unfold) (auto simp: Let_def)
qed

lemma doRead_unlink [simp]: "doRead (e\<lparr>unlink_fails := b\<rparr>) p w = doRead e p w"
  by (simp add: doRead_def Let_def split: prod.splits option.splits)

lemma exit_code_invalid: "\<not> valid (parsed argv) \<Longrightarrow> exit_code e argv f = 1"
  by (simp add: exit_code_def main_invalid)

lemma exit_code_valid:
  "valid (parsed argv) \<Longrightarrow>
     exit_code e argv f =
       (if write_result e argv f \<noteq> 0 then write_result e argv f else read_result e argv f)"
  by (cases "doWrite e (parsed argv) (init_world f)")
     (simp add: exit_code_def write_result_def read_result_def main_valid)



subsection \<open>A signal during the write loop\<close>

lemma doWrite_after_loop:
  assumes "\<not> mb p * MB < BUFSZ" and "\<not> wopen_fails e"
    and "write_loop e (outfile p) (gen_buf e) (nbufs p) 0
           (emit (EvOpenW True) ((step e PWOpen w)\<lparr>fs := (fs w)(outfile p \<mapsto> [])\<rparr>)) = (threw, w3)"
  shows "doWrite e p w =
     (if threw then (3, p\<lparr>outfileCreated := True\<rparr>, say (MsgErrWrite ''writing to'' (outfile p)) w3)
      else if flush_fails e
        then (3, p\<lparr>outfileCreated := True\<rparr>,
              say (MsgErrWrite ''writing to'' (outfile p)) (emit (EvFlush False) (step e PWFlush w3)))
      else if close_fails e
        then (3, p\<lparr>outfileCreated := True\<rparr>,
              say (MsgErrWrite ''opening'' (outfile p))
                (emit (EvCloseW False) (step e PWClose (emit (EvFlush True) (step e PWFlush w3)))))
      else (if interrupted w3 \<or> signal_at e PWFlush \<or> signal_at e PWClose \<or> signal_at e PWFinal
              then 99 else 0,
            p\<lparr>outfileCreated := True\<rparr>,
            step e PWFinal (emit (EvCloseW True) (step e PWClose (emit (EvFlush True) (step e PWFlush w3))))))"
  using assms by (simp add: doWrite_def Let_def nbufs_def)

lemma write_loop_signal:
  assumes "i < M" and "\<not> interrupted w"
    and "signal_at e (PWCheck i) \<or> signal_at e (PWWrite i)"
    and "write_loop e path buf M i w = (threw, w')"
  shows "interrupted w'
     \<and> (\<exists>k. (k = 0 \<or> k = 1) \<and> (signal_at e (PWCheck i) \<longrightarrow> k = 0)
            \<and> trace w' = trace w @ replicate k (EvWrite buf) @ (if threw then [EvWriteFail] else []))
     \<and> (threw \<longleftrightarrow> \<not> signal_at e (PWCheck i) \<and> write_fails e i)"
proof (cases "signal_at e (PWCheck i)")
  case True
  with assms have "threw = False" "w' = step e (PWCheck i) w"
    by (subst (asm) write_loop_unfold, simp)+
  with True show ?thesis by (auto intro!: exI [of _ 0])
next
  case False
  with assms(3) have sw: "signal_at e (PWWrite i)" by simp
  show ?thesis
  proof (cases "write_fails e i")
    case True
    with False assms have "threw = True" "w' = emit EvWriteFail (step e (PWWrite i) (step e (PWCheck i) w))"
      by (subst (asm) write_loop_unfold, simp)+
    with True False sw show ?thesis by (auto intro!: exI [of _ 0])
  next
    case wf: False
    let ?w3 = "emit (EvWrite buf)
                 ((step e (PWWrite i) (step e (PWCheck i) w))
                    \<lparr>fs := (fs w)(path \<mapsto> (case fs w path of None \<Rightarrow> [] | Some c \<Rightarrow> c) @ buf)\<rparr>)"
    have i3: "interrupted ?w3" using sw by simp
    from wf False assms have "write_loop e path buf M (Suc i) ?w3 = (threw, w')"
      by (subst (asm) write_loop_unfold) simp
    then have res: "threw = False" "w' = (if Suc i < M then step e (PWCheck (Suc i)) ?w3 else ?w3)"
      by (simp_all add: write_loop_interrupted [OF i3])
    have tr: "trace w' = trace w @ replicate 1 (EvWrite buf) @ (if threw then [EvWriteFail] else [])"
      using res by simp
    have "interrupted w'" using res i3 by simp
    with tr res wf False show ?thesis by blast
  qed
qed

lemma doWrite_signal:
  assumes sz: "\<not> mb p * MB < BUFSZ" and op: "\<not> wopen_fails e" and ni: "\<not> interrupted w"
    and n: "N < nbufs p"
    and b1: "\<not> signal_at e PWOpen"
    and b2: "\<forall>i<N. \<not> signal_at e (PWCheck i) \<and> \<not> signal_at e (PWWrite i) \<and> \<not> write_fails e i"
    and sig: "signal_at e (PWCheck N) \<or> signal_at e (PWWrite N)"
    and dw: "doWrite e p w = (r, p', w')"
  shows "\<exists>k. (k = N \<or> k = N + 1) \<and> (signal_at e (PWCheck N) \<longrightarrow> k = N)
     \<and> writes_of (trace w') = writes_of (trace w) @ replicate k (gen_buf e)
     \<and> (r = 3 \<or> r = 99)
     \<and> (r = 3 \<longleftrightarrow> (\<not> signal_at e (PWCheck N) \<and> write_fails e N) \<or> flush_fails e \<or> close_fails e)"
proof -
  let ?buf = "gen_buf e"
  let ?w2 = "emit (EvOpenW True) ((step e PWOpen w)\<lparr>fs := (fs w)(outfile p \<mapsto> [])\<rparr>)"
  let ?wN = "?w2\<lparr>fs := (fs ?w2)(outfile p \<mapsto> [] @ concat (replicate N ?buf)),
               trace := trace ?w2 @ replicate N (EvWrite ?buf)\<rparr>"
  obtain threw w3 where wl: "write_loop e (outfile p) ?buf (nbufs p) 0 ?w2 = (threw, w3)"
    by (cases "write_loop e (outfile p) ?buf (nbufs p) 0 ?w2") blast
  have ni2: "\<not> interrupted ?w2" using ni b1 by simp
  have f2: "fs ?w2 (outfile p) = Some []" by simp
  have qs: "\<forall>j. 0 \<le> j \<and> j < 0 + N \<longrightarrow>
           \<not> signal_at e (PWCheck j) \<and> \<not> signal_at e (PWWrite j) \<and> \<not> write_fails e j"
    using b2 by simp
  have "write_loop e (outfile p) ?buf (nbufs p) 0 ?w2 =
        write_loop e (outfile p) ?buf (nbufs p) (0 + N) ?wN"
    using n by (intro write_loop_clean [OF ni2 f2 _ qs]) simp
  with wl have wlN: "write_loop e (outfile p) ?buf (nbufs p) N ?wN = (threw, w3)" by simp
  have niN: "\<not> interrupted ?wN" using ni2 by simp
  from write_loop_signal [OF n niN sig wlN] obtain k where
    i3: "interrupted w3" and k: "k = 0 \<or> k = 1" "signal_at e (PWCheck N) \<longrightarrow> k = 0"
    and tr3: "trace w3 = trace ?wN @ replicate k (EvWrite ?buf) @ (if threw then [EvWriteFail] else [])"
    and th: "threw \<longleftrightarrow> \<not> signal_at e (PWCheck N) \<and> write_fails e N"
    by blast
  have wr3: "writes_of (trace w3) = writes_of (trace w) @ replicate (N + k) ?buf"
    by (simp add: tr3 replicate_add)
  note d = doWrite_after_loop [OF sz op wl]
  have tr': "writes_of (trace w') = writes_of (trace w3)"
    using dw d by (auto split: if_splits)
  have r: "r = (if threw \<or> flush_fails e \<or> close_fails e then 3 else 99)"
    using dw d i3 by (auto split: if_splits)
  show ?thesis
    apply (rule exI [of _ "N + k"])
    using k tr' wr3 r th by auto
qed

subsection \<open>The paths through a run\<close>

lemma prefix_count_nonzero:
  assumes "concat (replicate M buf) = pre @ sfx" and "length buf = unat BUFSZ"
    and "M * unat BUFSZ < 2 ^ 64"
  shows "(of_nat (length pre) :: size_t) \<noteq> 0 \<longleftrightarrow> pre \<noteq> []"
proof (cases "pre = []")
  case True
  then show ?thesis by simp
next
  case False
  have "length (concat (replicate M buf)) = M * unat BUFSZ"
    by (simp add: length_concat assms(2) sum_list_replicate)
  with assms(1) have "length pre \<le> M * unat BUFSZ"
    by (metis length_append le_add1)
  with assms(3) have "length pre < 2 ^ 64" by simp
  moreover from False have "0 < length pre" by simp
  ultimately have "(of_nat (length pre) :: size_t) \<noteq> 0" by (intro count_nonzero)
  with False show ?thesis by simp
qed

lemma run_cases [consumes 1, case_names small open_fail write_err write_int purge_fail
    ropen_fail fcntl_fail reading]:
  assumes v: "valid (parsed argv)"
  obtains
    (small) "mb (parsed argv) * MB < BUFSZ" "write_result e argv f = 2"
      "exit_code e argv f = 2" "run_trace e argv f = []"
  | (open_fail) "write_result e argv f = 3" "exit_code e argv f = 3"
      "run_trace e argv f = [EvOpenW False]"
  | (write_err) k evs where "write_result e argv f = 3" "exit_code e argv f = 3"
      "run_trace e argv f = EvOpenW True # replicate k (EvWrite (gen_buf e)) @ evs
          @ [EvUnlink (\<not> unlink_fails e)]"
      "evs = [EvWriteFail] \<or> evs = [EvFlush False] \<or> evs = [EvFlush True, EvCloseW False]"
  | (write_int) k where "write_result e argv f = 99" "exit_code e argv f = 99"
      "run_trace e argv f = EvOpenW True # replicate k (EvWrite (gen_buf e))
          @ [EvFlush True, EvCloseW True, EvUnlink (\<not> unlink_fails e)]"
      "interrupted (final_world e argv f)"
  | (purge_fail) "write_result e argv f = 0" "purge_res e \<noteq> 0" "exit_code e argv f = purge_res e"
      "run_trace e argv f = EvOpenW True # replicate (nbufs (parsed argv)) (EvWrite (gen_buf e))
          @ [EvFlush True, EvCloseW True, EvPurge (purge_res e), EvUnlink (\<not> unlink_fails e)]"
  | (ropen_fail) "write_result e argv f = 0" "purge_res e = 0" "ropen_fails e"
      "exit_code e argv f = 10"
      "run_trace e argv f = EvOpenW True # replicate (nbufs (parsed argv)) (EvWrite (gen_buf e))
          @ [EvFlush True, EvCloseW True, EvPurge 0, EvOpenR False, EvUnlink (\<not> unlink_fails e)]"
  | (fcntl_fail) "write_result e argv f = 0" "purge_res e = 0" "\<not> ropen_fails e"
      "fcntl_res e \<noteq> 0" "exit_code e argv f = 11"
      "run_trace e argv f = EvOpenW True # replicate (nbufs (parsed argv)) (EvWrite (gen_buf e))
          @ [EvFlush True, EvCloseW True, EvPurge 0, EvOpenR True, EvNoCache (fcntl_res e),
             EvCloseR, EvUnlink (\<not> unlink_fails e)]"
  | (reading) cs tl I where "write_result e argv f = 0" "purge_res e = 0" "\<not> ropen_fails e"
      "fcntl_res e = 0"
      "run_trace e argv f = EvOpenW True # replicate (nbufs (parsed argv)) (EvWrite (gen_buf e))
          @ [EvFlush True, EvCloseW True, EvPurge 0, EvOpenR True, EvNoCache 0]
          @ map EvRead cs @ tl @ [EvCloseR, EvUnlink (\<not> unlink_fails e)]"
      "tl = [] \<or> tl = [EvReadErr]"
      "\<exists>sfx. concat (replicate (nbufs (parsed argv)) (gen_buf e)) = concat cs @ sfx"
      "exit_code e argv f = 99 \<longleftrightarrow> I"
      "interrupted (final_world e argv f) \<longleftrightarrow> I \<or> signal_at e PUnlink"
      "\<not> I \<longrightarrow> exit_code e argv f = (if concat cs \<noteq> [] then 0 else 20)"
      "\<not> I \<and> (\<forall>j. \<not> read_fails e j) \<longrightarrow>
         concat cs = concat (replicate (nbufs (parsed argv)) (gen_buf e)) \<and> tl = []"
proof (cases "mb (parsed argv) * MB < BUFSZ")
  case True
  have "write_result e argv f = 2" "exit_code e argv f = 2" "run_trace e argv f = []"
    by (simp_all add: exit_code_def run_trace_def final_world_def write_result_def
          doWrite_small [OF True] main_small [OF v True] init_world_def)
  with True show ?thesis by (rule small)
next
  case False
  note sz = this
  let ?p = "parsed argv"
  let ?buf = "gen_buf e"
  show ?thesis
  proof (cases "wopen_fails e")
    case True
    have "write_result e argv f = 3" "exit_code e argv f = 3" "run_trace e argv f = [EvOpenW False]"
      by (simp_all add: exit_code_def run_trace_def final_world_def write_result_open_fail [OF sz True]
            main_open_fail [OF v sz True] init_world_def)
    then show ?thesis by (rule open_fail)
  next
    case False
    note op = this
    obtain r1 p1 w1 where dw: "doWrite e ?p (init_world f) = (r1, p1, w1)"
      by (cases "doWrite e ?p (init_world f)") blast
    have wr: "write_result e argv f = r1" by (simp add: write_result_def dw)
    from doWrite_opened [OF sz op dw] obtain k evs where
      k: "k \<le> nbufs ?p"
      and tr1: "trace w1 = EvOpenW True # replicate k (EvWrite ?buf) @ evs"
      and fs1: "fs w1 = f(outfile ?p \<mapsto> concat (replicate k ?buf))"
      and p1: "p1 = ?p\<lparr>outfileCreated := True\<rparr>"
      and rc: "(r1 = 3 \<and> (evs = [EvWriteFail] \<or> evs = [EvFlush False] \<or> evs = [EvFlush True, EvCloseW False]))
         \<or> (r1 = 99 \<and> evs = [EvFlush True, EvCloseW True] \<and> interrupted w1)
         \<or> (r1 = 0 \<and> evs = [EvFlush True, EvCloseW True] \<and> \<not> interrupted w1 \<and> k = nbufs ?p)"
      by (auto simp: init_world_def)
    define w2 where "w2 = (if r1 \<noteq> 0 then w1 else snd (doRead e p1 w1))"
    note m = main_opened [OF v sz op dw w2_def]
    have ex: "exit_code e argv f = (if r1 \<noteq> 0 then r1 else fst (doRead e p1 w1))"
      by (simp add: exit_code_def m)
    have tr: "run_trace e argv f = trace w2 @ [EvUnlink (\<not> unlink_fails e)]"
      by (simp add: run_trace_def final_world_def m)
    have fin: "interrupted (final_world e argv f) \<longleftrightarrow> interrupted w2 \<or> signal_at e PUnlink"
      by (simp add: final_world_def m)
    show ?thesis
    proof (cases "r1 = 0")
      case False
      then have w21: "w2 = w1" by (simp add: w2_def)
      from False rc consider
        (a) "r1 = 3" "evs = [EvWriteFail] \<or> evs = [EvFlush False] \<or> evs = [EvFlush True, EvCloseW False]"
        | (b) "r1 = 99" "evs = [EvFlush True, EvCloseW True]" "interrupted w1"
        by blast
      then show ?thesis
      proof cases
        case a
        have "write_result e argv f = 3" using wr a(1) by simp
        moreover have "exit_code e argv f = 3" using ex a(1) by simp
        moreover have "run_trace e argv f = EvOpenW True # replicate k (EvWrite ?buf) @ evs
              @ [EvUnlink (\<not> unlink_fails e)]"
          by (simp add: tr w21 tr1)
        ultimately show ?thesis using a(2) by (rule write_err)
      next
        case b
        have "write_result e argv f = 99" using wr b(1) by simp
        moreover have "exit_code e argv f = 99" using ex b(1) by simp
        moreover have "run_trace e argv f = EvOpenW True # replicate k (EvWrite ?buf)
              @ [EvFlush True, EvCloseW True, EvUnlink (\<not> unlink_fails e)]"
          by (simp add: tr w21 tr1 b(2))
        moreover have "interrupted (final_world e argv f)" using fin w21 b(3) by simp
        ultimately show ?thesis by (rule write_int)
      qed
    next
      case True
      with rc have ev: "evs = [EvFlush True, EvCloseW True]" and kk: "k = nbufs ?p"
        and ni1: "\<not> interrupted w1"
        by auto
      have w0: "write_result e argv f = 0" using wr True by simp
      have w22: "w2 = snd (doRead e p1 w1)" using True by (simp add: w2_def)
      have ex2: "exit_code e argv f = fst (doRead e p1 w1)" using ex True by simp
      have dr: "doRead e p1 w1 = (exit_code e argv f, w2)" by (simp add: ex2 w22)
      let ?pre = "EvOpenW True # replicate (nbufs ?p) (EvWrite ?buf) @ [EvFlush True, EvCloseW True]"
      have pre: "trace w1 = ?pre" by (simp add: tr1 ev kk)
      have fl: "fs w1 (outfile p1) = Some (concat (replicate (nbufs ?p) ?buf))"
        by (simp add: fs1 p1 kk)
      show ?thesis
      proof (cases "purge_res e = 0")
        case False
        from dr doRead_purge_fail [OF False, of p1 w1]
        have "exit_code e argv f = purge_res e" "trace w2 = trace w1 @ [EvPurge (purge_res e)]"
          by auto
        then have "exit_code e argv f = purge_res e"
          "run_trace e argv f = ?pre @ [EvPurge (purge_res e), EvUnlink (\<not> unlink_fails e)]"
          by (simp_all add: tr pre)
        with w0 False show ?thesis by (intro purge_fail) simp_all
      next
        case True
        note pr = this
        show ?thesis
        proof (cases "ropen_fails e")
          case True
          then have "ropen_fails e \<or> fs w1 (outfile p1) = None" by simp
          from dr doRead_open_fail [OF pr this]
          have "exit_code e argv f = 10" "trace w2 = trace w1 @ [EvPurge 0, EvOpenR False]"
            by auto
          then have "exit_code e argv f = 10"
            "run_trace e argv f = ?pre @ [EvPurge 0, EvOpenR False, EvUnlink (\<not> unlink_fails e)]"
            by (simp_all add: tr pre)
          with w0 pr True show ?thesis by (intro ropen_fail) simp_all
        next
          case False
          note ro = this
          show ?thesis
          proof (cases "fcntl_res e = 0")
            case False
            from dr doRead_fcntl_fail [OF pr ro fl False]
            have "exit_code e argv f = 11"
              "trace w2 = trace w1 @ [EvPurge 0, EvOpenR True, EvNoCache (fcntl_res e), EvCloseR]"
              by auto
            then have "exit_code e argv f = 11"
              "run_trace e argv f = ?pre @ [EvPurge 0, EvOpenR True, EvNoCache (fcntl_res e),
                  EvCloseR, EvUnlink (\<not> unlink_fails e)]"
              by (simp_all add: tr pre)
            with w0 pr ro False show ?thesis by (intro fcntl_fail) simp_all
          next
            case True
            from doRead_reading [OF pr ro fl True dr] obtain cs tl where
              t2: "trace w2 = trace w1 @ [EvPurge 0, EvOpenR True, EvNoCache 0] @ map EvRead cs @ tl @ [EvCloseR]"
              and tl: "tl = [] \<or> tl = [EvReadErr]"
              and sfx: "\<exists>sfx. concat (replicate (nbufs ?p) ?buf) = concat cs @ sfx"
              and r99: "exit_code e argv f = 99 \<longleftrightarrow> interrupted w2"
              and rr: "\<not> interrupted w2 \<longrightarrow>
                  exit_code e argv f = (if (of_nat (length (concat cs)) :: size_t) \<noteq> 0 then 0 else 20)"
              and full: "\<not> interrupted w2 \<and> (\<forall>j. \<not> read_fails e j) \<longrightarrow>
                  concat cs = concat (replicate (nbufs ?p) ?buf) \<and> tl = []"
              by blast
            from sfx obtain s where s: "concat (replicate (nbufs ?p) ?buf) = concat cs @ s" ..
            have cnt: "(of_nat (length (concat cs)) :: size_t) \<noteq> 0 \<longleftrightarrow> concat cs \<noteq> []"
              by (rule prefix_count_nonzero [OF s length_gen_buf nbufs_bytes_lt])
            have a: "run_trace e argv f = ?pre @ [EvPurge 0, EvOpenR True, EvNoCache 0]
                 @ map EvRead cs @ tl @ [EvCloseR, EvUnlink (\<not> unlink_fails e)]"
              by (simp add: tr t2 pre)
            have b: "\<not> interrupted w2 \<longrightarrow> exit_code e argv f = (if concat cs \<noteq> [] then 0 else 20)"
              using rr cnt by simp
            show ?thesis
              using w0 pr ro True a tl sfx r99 fin b full
              by (intro reading [of cs tl "interrupted w2"]) simp_all
          qed
        qed
      qed
    qed
  qed
qed

lemma length_concat_replicate: "length (concat (replicate n xs)) = n * length xs"
  by (simp add: length_concat sum_list_replicate)

lemma main_read_error:
  assumes v: "valid (parsed argv)" and sz: "\<not> mb (parsed argv) * MB < BUFSZ"
    and q: "\<And>pt. \<not> signal_at e pt"
    and okw: "\<not> wopen_fails e" "\<forall>j. j < nbufs (parsed argv) \<longrightarrow> \<not> write_fails e j"
            "\<not> flush_fails e" "\<not> close_fails e"
    and okr: "purge_res e = 0" "\<not> ropen_fails e" "fcntl_res e = 0"
    and m: "0 < m" "m \<le> nbufs (parsed argv)"
    and rd: "\<forall>j. j < m \<longrightarrow> \<not> read_fails e j" "read_fails e m"
  shows "exit_code e argv f = 0
     \<and> run_trace e argv f =
          EvOpenW True # replicate (nbufs (parsed argv)) (EvWrite (gen_buf e))
          @ [EvFlush True, EvCloseW True, EvPurge 0, EvOpenR True, EvNoCache 0]
          @ map EvRead (replicate m (gen_buf e))
          @ [EvReadErr, EvCloseR, EvUnlink (\<not> unlink_fails e)]"
proof -
  let ?p = "parsed argv"
  let ?buf = "gen_buf e"
  let ?p1 = "?p\<lparr>outfileCreated := True\<rparr>"
  let ?w1 = "(init_world f)\<lparr>fs := (fs (init_world f))(outfile ?p \<mapsto> concat (replicate (nbufs ?p) ?buf)),
        trace := trace (init_world f) @ EvOpenW True # replicate (nbufs ?p) (EvWrite ?buf)
                   @ [EvFlush True, EvCloseW True]\<rparr>"
  let ?w2 = "?w1\<lparr>trace := trace ?w1 @ [EvPurge 0, EvOpenR True, EvNoCache 0]
                    @ map EvRead (replicate m ?buf) @ [EvReadErr, EvCloseR]\<rparr>"
  have ni: "\<not> interrupted (init_world f)" by (simp add: init_world_def)
  have dw: "doWrite e ?p (init_world f) = (0, ?p1, ?w1)"
    by (rule doWrite_clean [OF sz ni q okw])
  have ni1: "\<not> interrupted ?w1" by (simp add: init_world_def)
  have "replicate (nbufs ?p) ?buf = replicate m ?buf @ replicate (nbufs ?p - m) ?buf"
    using m(2) by (simp add: replicate_add [symmetric])
  then have split: "concat (replicate (nbufs ?p) ?buf)
      = concat (replicate m ?buf) @ concat (replicate (nbufs ?p - m) ?buf)"
    by (metis concat_append)
  have fl: "fs ?w1 (outfile ?p1) = Some (concat (replicate m ?buf) @ concat (replicate (nbufs ?p - m) ?buf))"
    using split by simp
  have "m * unat BUFSZ \<le> nbufs ?p * unat BUFSZ" using m(2) by (rule mult_le_mono1)
  then have lt: "m * unat BUFSZ < 2 ^ 64" using nbufs_bytes_lt [of ?p] by (rule le_less_trans)
  have dr: "doRead e ?p1 ?w1 = (0, ?w2)"
    by (rule doRead_read_error [OF ni1 q okr fl length_gen_buf m(1) lt rd])
  show ?thesis
    using main_opened [OF v sz okw(1) dw refl] dr
    by (simp add: exit_code_def run_trace_def final_world_def init_world_def)
qed

lemma run_ropen_fail:
  assumes "valid (parsed argv)" and "write_result e argv f = 0" and "purge_res e = 0"
    and "ropen_fails e"
  shows "exit_code e argv f = 10 \<and> EvOpenR False \<in> set (run_trace e argv f)"
  using assms(1)
  by (cases rule: run_cases [where e = e and f = f]) (use assms in simp_all)

lemma run_fcntl_fail:
  assumes "valid (parsed argv)" and "write_result e argv f = 0" and "purge_res e = 0"
    and "\<not> ropen_fails e" and "fcntl_res e \<noteq> 0"
  shows "exit_code e argv f = 11 \<and> EvNoCache (fcntl_res e) \<in> set (run_trace e argv f)"
  using assms(1)
  by (cases rule: run_cases [where e = e and f = f]) (use assms in simp_all)

lemma run_write_interrupted:
  assumes "valid (parsed argv)" and "write_result e argv f = 99"
  shows "exit_code e argv f = 99 \<and> EvCloseW True \<in> set (run_trace e argv f)
     \<and> (\<forall>r. EvPurge r \<notin> set (run_trace e argv f))"
  using assms(1)
  by (cases rule: run_cases [where e = e and f = f]) (use assms in auto)

lemma run_no_data:
  assumes v: "valid (parsed argv)" and w0: "write_result e argv f = 0"
    and ok: "purge_res e = 0" "\<not> ropen_fails e" "fcntl_res e = 0"
    and q: "\<And>pt. \<not> signal_at e pt" and rf: "read_fails e 0"
  shows "exit_code e argv f = 20 \<and> EvNoCache 0 \<in> set (run_trace e argv f)
     \<and> concat (reads_of (run_trace e argv f)) = []
     \<and> \<not> interrupted (final_world e argv f)"
proof -
  let ?p = "parsed argv"
  have sz: "\<not> mb ?p * MB < BUFSZ"
    using w0 by (auto simp: write_result_def doWrite_small)
  obtain r1 p1 w1 where dw: "doWrite e ?p (init_world f) = (r1, p1, w1)"
    by (cases "doWrite e ?p (init_world f)") blast
  with w0 have dw0: "doWrite e ?p (init_world f) = (0, p1, w1)"
    by (simp add: write_result_def)
  from doWrite_zero_opened [OF dw0] have op: "\<not> wopen_fails e" by simp
  from doWrite_zero [OF dw0] have
    fs1: "fs w1 = (fs (init_world f))(outfile ?p \<mapsto> concat (replicate (nbufs ?p) (gen_buf e)))"
    and p1: "p1 = ?p\<lparr>outfileCreated := True\<rparr>" and ni1: "\<not> interrupted w1"
    by simp_all
  have fl: "fs w1 (outfile p1) = Some (concat (replicate (nbufs ?p) (gen_buf e)))"
    by (simp add: fs1 p1)
  have rl: "read_loop e 0 (concat (replicate (nbufs ?p) (gen_buf e))) 0
              (emit (EvNoCache 0) (emit (EvOpenR True) (emit (EvPurge 0) w1)))
            = (0, emit EvReadErr (emit (EvNoCache 0) (emit (EvOpenR True) (emit (EvPurge 0) w1))))"
    using rf by (subst read_loop_unfold) (simp add: step_quiet [OF q])
  have dr: "doRead e p1 w1 =
     (20, emit EvCloseR (say MsgErrReading
            (emit EvReadErr (emit (EvNoCache 0) (emit (EvOpenR True) (emit (EvPurge 0) w1))))))"
    using ok fl rl ni1 by (simp add: doRead_def Let_def step_quiet [OF q])
  let ?w2 = "emit EvCloseR (say MsgErrReading
            (emit EvReadErr (emit (EvNoCache 0) (emit (EvOpenR True) (emit (EvPurge 0) w1)))))"
  have w2: "?w2 = (if (0::int) \<noteq> 0 then w1 else snd (doRead e p1 w1))"
    by (simp add: dr)
  note m = main_opened [OF v sz op dw0 w2]
  have tr1: "trace w1 = EvOpenW True # replicate (nbufs ?p) (EvWrite (gen_buf e))
                      @ [EvFlush True, EvCloseW True]"
    using doWrite_zero [OF dw0] by (simp add: init_world_def)
  have a: "exit_code e argv f = 20" by (simp add: exit_code_def m dr)
  have b: "run_trace e argv f = trace w1 @ [EvPurge 0, EvOpenR True, EvNoCache 0, EvReadErr,
              EvCloseR, EvUnlink (\<not> unlink_fails e)]"
    by (simp add: run_trace_def final_world_def m)
  have c: "\<not> interrupted (final_world e argv f)"
    using ni1 q by (simp add: final_world_def m)
  have d: "EvNoCache 0 \<in> set (run_trace e argv f)" by (simp add: b)
  have "reads_of (run_trace e argv f) = []" by (simp add: b tr1)
  then have "concat (reads_of (run_trace e argv f)) = []" by simp
  with a c d show ?thesis by blast
qed

lemma write_result_signal0:
  assumes sz: "\<not> mb (parsed argv) * MB < BUFSZ" and op: "\<not> wopen_fails e"
    and b1: "\<not> signal_at e PWOpen" and sig: "signal_at e (PWCheck 0)"
    and ok: "\<not> flush_fails e" "\<not> close_fails e"
  shows "write_result e argv f = 99"
proof -
  obtain r1 p1 w1 where dw: "doWrite e (parsed argv) (init_world f) = (r1, p1, w1)"
    by (cases "doWrite e (parsed argv) (init_world f)") blast
  have ni: "\<not> interrupted (init_world f)" by (simp add: init_world_def)
  have "\<exists>k. (k = 0 \<or> k = 0 + 1) \<and> (signal_at e (PWCheck 0) \<longrightarrow> k = 0)
     \<and> writes_of (trace w1) = writes_of (trace (init_world f)) @ replicate k (gen_buf e)
     \<and> (r1 = 3 \<or> r1 = 99)
     \<and> (r1 = 3 \<longleftrightarrow> (\<not> signal_at e (PWCheck 0) \<and> write_fails e 0) \<or> flush_fails e \<or> close_fails e)"
    using sig by (intro doWrite_signal [OF sz op ni nbufs_pos [OF sz] b1 _ _ dw]) simp_all
  with sig ok have "r1 = 99" by auto
  then show ?thesis by (simp add: write_result_def dw)
qed

subsection \<open>Runs in which a step may throw\<close>







lemma doWrite_exn_unlink [simp]:
  "doWrite_exn x (e\<lparr>unlink_fails := b\<rparr>) p w = doWrite_exn x e p w"
  by (simp add: doWrite_exn_def Let_def split: prod.splits)

lemma doRead_exn_unlink [simp]:
  "doRead_exn x (e\<lparr>unlink_fails := b\<rparr>) p w = doRead_exn x e p w"
  by (simp add: doRead_exn_def Let_def split: prod.splits option.splits)








subsection \<open>The cleanup when \<^verbatim>\<open>main\<close> returns\<close>






lemma no_throws_simps [simp]:
  "\<not> alloc_write_throws no_throws" "\<not> entropy_throws no_throws" "\<not> alloc_read_throws no_throws"
  by (simp_all add: no_throws_def)


subsection \<open>A failed purge command\<close>

lemma run_purge_fail:
  assumes "valid (parsed argv)" and "write_result e argv f = 0" and "purge_res e \<noteq> 0"
  shows "exit_code e argv f = purge_res e
     \<and> run_trace e argv f = EvOpenW True # replicate (nbufs (parsed argv)) (EvWrite (gen_buf e))
          @ [EvFlush True, EvCloseW True, EvPurge (purge_res e), EvUnlink (\<not> unlink_fails e)]"
  using assms(1)
  by (cases rule: run_cases [where e = e and f = f]) (use assms in simp_all)

lemma run_purge_fail_quiet:
  assumes v: "valid (parsed argv)" and sz: "\<not> mb (parsed argv) * MB < BUFSZ"
    and q: "\<And>pt. \<not> signal_at e pt"
    and okw: "\<not> wopen_fails e" "\<forall>j. j < nbufs (parsed argv) \<longrightarrow> \<not> write_fails e j"
            "\<not> flush_fails e" "\<not> close_fails e"
    and pf: "purge_res e \<noteq> 0"
  shows "\<not> interrupted (final_world e argv f)"
proof -
  have ni: "\<not> interrupted (init_world f)" by (simp add: init_world_def)
  note dw = doWrite_clean [OF sz ni q okw]
  note m = main_opened [OF v sz okw(1) dw refl]
  show ?thesis
    using ni by (simp add: final_world_def m doRead_purge_fail [OF pf] step_quiet [OF q])
qed

section \<open>The properties\<close>




text \<open>
  C2, as amended. When the write phase returns 0, it has written exactly
  \<open>nbufs p\<close> buffers, each the whole buffer of \<open>BUFSZ\<close> = 1048576 bytes, and the file
  holds these bytes and nothing else. \<open>nbufs p\<close> is \<^verbatim>\<open>p.mb * MB / BUFSZ\<close> in
  \<^verbatim>\<open>size_t\<close> arithmetic, where the product is taken modulo \<open>2 ^ 64\<close>; it is the
  requested number of megabytes whenever that number is below \<open>2 ^ 44\<close>.
\<close>

theorem write_phase_buffers:
  assumes "doWrite e p w = (0, p', w')"
  shows "writes_of (trace w') = writes_of (trace w) @ replicate (nbufs p) (gen_buf e)
     \<and> length (gen_buf e) = unat BUFSZ \<and> unat BUFSZ = 1048576
     \<and> fs w' (outfile p) = Some (concat (replicate (nbufs p) (gen_buf e)))
     \<and> length (concat (replicate (nbufs p) (gen_buf e))) = nbufs p * unat BUFSZ
     \<and> nbufs p = ((unat (mb p) * 2 ^ 20) mod 2 ^ 64) div 2 ^ 20
     \<and> (unat (mb p) < 2 ^ 44 \<longrightarrow> nbufs p = unat (mb p) \<and> nbufs p = (unat (mb p) * 2 ^ 20) div unat BUFSZ)"
proof -
  from doWrite_zero [OF assms] have
    tr: "trace w' = trace w @ EvOpenW True # replicate (nbufs p) (EvWrite (gen_buf e))
                      @ [EvFlush True, EvCloseW True]"
    and fl: "fs w' = (fs w)(outfile p \<mapsto> concat (replicate (nbufs p) (gen_buf e)))"
    by simp_all
  have a: "writes_of (trace w') = writes_of (trace w) @ replicate (nbufs p) (gen_buf e)"
    by (simp add: tr)
  have c: "fs w' (outfile p) = Some (concat (replicate (nbufs p) (gen_buf e)))"
    by (simp add: fl)
  have d: "length (concat (replicate (nbufs p) (gen_buf e))) = nbufs p * unat BUFSZ"
    by (simp add: length_concat length_gen_buf sum_list_replicate)
  have f: "unat (mb p) < 2 ^ 44 \<longrightarrow> nbufs p = unat (mb p) \<and> nbufs p = (unat (mb p) * 2 ^ 20) div unat BUFSZ"
    by (simp add: nbufs_no_wrap unat_BUFSZ)
  from a c d f show ?thesis
    using length_gen_buf [of e] unat_BUFSZ nbufs_eq [of p] by blast
qed

theorem write_phase_buffers_witness:
  "fst (doWrite quiet_env (parsed [''sbench'', ''/tmp/t1'', ''2'']) (init_world Map.empty)) = 0
   \<and> writes_of (trace (snd (snd (doWrite quiet_env (parsed [''sbench'', ''/tmp/t1'', ''2''])
         (init_world Map.empty))))) = [gen_buf quiet_env, gen_buf quiet_env]
   \<and> unat (mb (parsed [''sbench'', ''/tmp/t1'', ''2''])) < 2 ^ 44
   \<and> nbufs (parsed [''sbench'', ''/tmp/t1'', ''2'']) = 2"
proof -
  let ?p = "parsed [''sbench'', ''/tmp/t1'', ''2'']"
  let ?w = "init_world Map.empty"
  have sz: "\<not> mb ?p * MB < BUFSZ" using two_not_small by (simp add: parsed_two)
  have ni: "\<not> interrupted ?w" by (simp add: init_world_def)
  obtain p' w' where d: "doWrite quiet_env ?p ?w = (0, p', w')"
    using doWrite_clean [OF sz ni, of quiet_env] by simp
  have small: "unat (mb ?p) < 2 ^ 44" by (simp add: parsed_two)
  have r2: "replicate 2 (gen_buf quiet_env) = [gen_buf quiet_env, gen_buf quiet_env]"
    by (simp add: numeral_2_eq_2)
  have "trace ?w = []" by (simp add: init_world_def)
  with write_phase_buffers [OF d] small show ?thesis
    by (simp add: d two_nbufs r2)
qed

theorem write_phase_wrap_counterexample:
  "valid (parsed [''sbench'', ''/tmp/t1'', ''17592186044417''])
   \<and> fst (doWrite quiet_env (parsed [''sbench'', ''/tmp/t1'', ''17592186044417''])
            (init_world Map.empty)) = 0
   \<and> length (writes_of (trace (snd (snd (doWrite quiet_env
         (parsed [''sbench'', ''/tmp/t1'', ''17592186044417'']) (init_world Map.empty)))))) = 1
   \<and> (unat (mb (parsed [''sbench'', ''/tmp/t1'', ''17592186044417''])) * 1048576) div unat BUFSZ
       = 17592186044417"
proof -
  let ?p = "parsed [''sbench'', ''/tmp/t1'', ''17592186044417'']"
  let ?w = "init_world Map.empty"
  have sz: "\<not> mb ?p * MB < BUFSZ" using wrap1_not_small by (simp add: parsed_wrap1)
  have ni: "\<not> interrupted ?w" by (simp add: init_world_def)
  have d: "doWrite quiet_env ?p ?w =
     (0, ?p\<lparr>outfileCreated := True\<rparr>,
      ?w\<lparr>fs := (fs ?w)(outfile ?p \<mapsto> concat (replicate (nbufs ?p) (gen_buf quiet_env))),
        trace := trace ?w @ EvOpenW True # replicate (nbufs ?p) (EvWrite (gen_buf quiet_env))
                   @ [EvFlush True, EvCloseW True]\<rparr>)"
    by (rule doWrite_clean [OF sz ni]) simp_all
  have v: "valid ?p" by (simp add: parsed_wrap1)
  have m: "(unat (mb ?p) * 1048576) div unat BUFSZ = 17592186044417"
    by (simp add: parsed_wrap1 unat_BUFSZ)
  have "trace ?w = []" by (simp add: init_world_def)
  then show ?thesis
    using v m by (simp add: d wrap1_nbufs)
qed



text \<open>
  C4, as amended. Let the first signal arrive after \<open>N\<close> of the \<open>nbufs\<close> buffer writes
  have been made (\<open>N < nbufs\<close>): either before the flag is read for iteration \<open>N\<close> or
  after that, before write \<open>N\<close> has returned. Then the write phase makes at most one
  further write (none in the first case) and returns a value other than 0, which
  \<^verbatim>\<open>main\<close> returns: 99 when the further write (if made), the flush and the close
  succeed, and 3 when one of them fails. The purge command and the read phase are
  skipped, and the cleanup makes its one \<^verbatim>\<open>unlink\<close>, after which the partial file is
  gone unless the \<^verbatim>\<open>unlink\<close> failed.
\<close>

theorem interrupted_write:
  assumes v: "valid (parsed argv)" and sz: "\<not> mb (parsed argv) * MB < BUFSZ"
    and op: "\<not> wopen_fails e" and n: "N < nbufs (parsed argv)"
    and b1: "\<not> signal_at e PWOpen"
    and b2: "\<forall>i<N. \<not> signal_at e (PWCheck i) \<and> \<not> signal_at e (PWWrite i) \<and> \<not> write_fails e i"
    and sig: "signal_at e (PWCheck N) \<or> signal_at e (PWWrite N)"
  shows "N \<le> length (writes_of (run_trace e argv f))
     \<and> length (writes_of (run_trace e argv f)) \<le> N + 1
     \<and> (signal_at e (PWCheck N) \<longrightarrow> length (writes_of (run_trace e argv f)) = N)
     \<and> exit_code e argv f = write_result e argv f
     \<and> (exit_code e argv f = 99 \<or> exit_code e argv f = 3)
     \<and> (exit_code e argv f = 3 \<longleftrightarrow>
          (\<not> signal_at e (PWCheck N) \<and> write_fails e N) \<or> flush_fails e \<or> close_fails e)
     \<and> (\<forall>ev\<in>set (run_trace e argv f). phase_of ev \<noteq> 1 \<and> phase_of ev \<noteq> 2)
     \<and> unlinks_of (run_trace e argv f) = [\<not> unlink_fails e]
     \<and> (\<not> unlink_fails e \<longrightarrow> fs (final_world e argv f) (outfile (parsed argv)) = None)"
proof -
  let ?p = "parsed argv"
  obtain r1 p1 w1 where dw: "doWrite e ?p (init_world f) = (r1, p1, w1)"
    by (cases "doWrite e ?p (init_world f)") blast
  have ni: "\<not> interrupted (init_world f)" by (simp add: init_world_def)
  from doWrite_signal [OF sz op ni n b1 b2 sig dw] obtain k where
    k: "k = N \<or> k = N + 1" "signal_at e (PWCheck N) \<longrightarrow> k = N"
    and wr: "writes_of (trace w1) = writes_of (trace (init_world f)) @ replicate k (gen_buf e)"
    and r: "r1 = 3 \<or> r1 = 99"
    and r3: "r1 = 3 \<longleftrightarrow> (\<not> signal_at e (PWCheck N) \<and> write_fails e N) \<or> flush_fails e \<or> close_fails e"
    by blast
  from r have nz: "r1 \<noteq> 0" by auto
  from doWrite_opened [OF sz op dw] have p1: "p1 = ?p\<lparr>outfileCreated := True\<rparr>" by blast
  from run_shape [OF v dw] nz p1 have
    tr: "run_trace e argv f = trace w1 @ [EvUnlink (\<not> unlink_fails e)]"
    and wp: "\<forall>ev\<in>set (trace w1). phase_of ev = 0"
    and ex: "exit_code e argv f = r1"
    by auto
  have len: "length (writes_of (run_trace e argv f)) = k"
    using wr by (simp add: tr init_world_def)
  have wres: "write_result e argv f = r1" by (simp add: write_result_def dw)
  have "\<forall>ev\<in>set (trace w1). phase_of ev \<noteq> 3" using wp by simp
  then have ul: "unlinks_of (run_trace e argv f) = [\<not> unlink_fails e]"
    by (simp add: tr unlinks_of_phase)
  have ph: "\<forall>ev\<in>set (run_trace e argv f). phase_of ev \<noteq> 1 \<and> phase_of ev \<noteq> 2"
    using wp by (simp add: tr)
  have gone: "\<not> unlink_fails e \<longrightarrow> fs (final_world e argv f) (outfile ?p) = None"
    using main_opened [OF v sz op dw refl] by (simp add: final_world_def p1)
  from k len ex wres r r3 ph ul gone show ?thesis by auto
qed

theorem interrupted_write_witness:
  "valid (parsed [''sbench'', ''/tmp/t1'', ''2''])
   \<and> 1 < nbufs (parsed [''sbench'', ''/tmp/t1'', ''2''])
   \<and> length (writes_of (run_trace (quiet_env\<lparr>signal_at := (\<lambda>pt. pt = PWCheck 1)\<rparr>)
        [''sbench'', ''/tmp/t1'', ''2''] Map.empty)) = 1
   \<and> exit_code (quiet_env\<lparr>signal_at := (\<lambda>pt. pt = PWCheck 1)\<rparr>)
        [''sbench'', ''/tmp/t1'', ''2''] Map.empty = 99
   \<and> fs (final_world (quiet_env\<lparr>signal_at := (\<lambda>pt. pt = PWCheck 1)\<rparr>)
        [''sbench'', ''/tmp/t1'', ''2''] Map.empty) ''/tmp/t1'' = None
   \<and> length (writes_of (run_trace (quiet_env\<lparr>signal_at := (\<lambda>pt. pt = PWWrite 0)\<rparr>)
        [''sbench'', ''/tmp/t1'', ''2''] Map.empty)) \<le> 1
   \<and> exit_code (quiet_env\<lparr>signal_at := (\<lambda>pt. pt = PWWrite 0)\<rparr>)
        [''sbench'', ''/tmp/t1'', ''2''] Map.empty = 99"
proof -
  let ?A = "[''sbench'', ''/tmp/t1'', ''2'']"
  have n1: "1 < nbufs (parsed ?A)" and n0: "0 < nbufs (parsed ?A)"
    by (simp_all add: two_nbufs)
  show ?thesis
    using interrupted_write [OF two_valid two_size _ n1, of "quiet_env\<lparr>signal_at := (\<lambda>pt. pt = PWCheck 1)\<rparr>" Map.empty]
      interrupted_write [OF two_valid two_size _ n0, of "quiet_env\<lparr>signal_at := (\<lambda>pt. pt = PWWrite 0)\<rparr>" Map.empty]
      two_valid n1
    by (auto simp: parsed_two)
qed

theorem interrupted_write_counterexample:
  "valid (parsed [''sbench'', ''/tmp/t1'', ''2''])
   \<and> nbufs (parsed [''sbench'', ''/tmp/t1'', ''2'']) = 2
   \<and> signal_at (quiet_env\<lparr>signal_at := (\<lambda>pt. pt = PWCheck 1), flush_fails := True\<rparr>) (PWCheck 1)
   \<and> length (writes_of (trace (snd (snd (doWrite
        (quiet_env\<lparr>signal_at := (\<lambda>pt. pt = PWCheck 1), flush_fails := True\<rparr>)
        (parsed [''sbench'', ''/tmp/t1'', ''2'']) (init_world Map.empty)))))) = 1
   \<and> write_result (quiet_env\<lparr>signal_at := (\<lambda>pt. pt = PWCheck 1), flush_fails := True\<rparr>)
        [''sbench'', ''/tmp/t1'', ''2''] Map.empty = 3
   \<and> exit_code (quiet_env\<lparr>signal_at := (\<lambda>pt. pt = PWCheck 1), flush_fails := True\<rparr>)
        [''sbench'', ''/tmp/t1'', ''2''] Map.empty = 3"
proof -
  let ?A = "[''sbench'', ''/tmp/t1'', ''2'']"
  let ?e = "quiet_env\<lparr>signal_at := (\<lambda>pt. pt = PWCheck 1), flush_fails := True\<rparr>"
  obtain r1 p1 w1 where dw: "doWrite ?e (parsed ?A) (init_world Map.empty) = (r1, p1, w1)"
    by (cases "doWrite ?e (parsed ?A) (init_world Map.empty)") blast
  have ni: "\<not> interrupted (init_world Map.empty)" by (simp add: init_world_def)
  have n1: "1 < nbufs (parsed ?A)" by (simp add: two_nbufs)
  have "\<exists>k. (k = 1 \<or> k = 1 + 1) \<and> (signal_at ?e (PWCheck 1) \<longrightarrow> k = 1)
     \<and> writes_of (trace w1) = writes_of (trace (init_world Map.empty)) @ replicate k (gen_buf ?e)
     \<and> (r1 = 3 \<or> r1 = 99)
     \<and> (r1 = 3 \<longleftrightarrow> (\<not> signal_at ?e (PWCheck 1) \<and> write_fails ?e 1) \<or> flush_fails ?e \<or> close_fails ?e)"
    by (rule doWrite_signal [OF two_size _ ni n1 _ _ _ dw]) simp_all
  then have w: "length (writes_of (trace w1)) = 1" and r: "r1 = 3"
    by (auto simp: init_world_def)
  have wr: "write_result ?e ?A Map.empty = 3" by (simp only: write_result_def dw fst_conv r)
  then have ex: "exit_code ?e ?A Map.empty = 3" by (simp only: exit_code_valid [OF two_valid]) simp
  have w': "length (writes_of (trace (snd (snd (doWrite ?e (parsed ?A) (init_world Map.empty)))))) = 1"
    by (simp only: dw snd_conv w)
  have s: "signal_at ?e (PWCheck 1)" by simp
  from two_valid two_nbufs s w' wr ex show ?thesis by blast
qed

text \<open>
  C5, as amended. The eight listed values are pairwise different, and each listed outcome
  gets its value: rejected arguments 1 and an invalid size 2, both before any call; a
  failed open, write, flush or close of the output stream 3, with no purge and no read
  phase call in the run; a failed open for reading 10; a failed \<^verbatim>\<open>fcntl\<close> 11; a
  read phase that was not interrupted and delivered no byte 20; one that was not
  interrupted and delivered bytes 0; an interruption seen by the write phase (the stream
  was closed and the purge never ran) or by the read phase 99. A failed purge command is
  one more outcome: \<^verbatim>\<open>main\<close> returns the status of the command as it is, after a
  write phase that returned 0 and with no read phase call, so this value can be any
  nonzero number, 3 and 99 included. In a run whose purge did not fail, the value
  returned is one of the eight and tells the outcome: 1 only for rejected arguments, 2
  only for an invalid size, 3 only with a failed open, write, flush or close, 10 only
  with a failed open for reading, 11 only with a failed \<^verbatim>\<open>fcntl\<close>, 20 and 0 only
  after a read phase that delivered no byte, respectively some bytes, and 99 only with
  the interrupt flag set.
\<close>

theorem exit_codes:
  "distinct [0, 1, 2, 3, 10, 11, 20, 99 :: int]
   \<and> (\<not> valid (parsed argv) \<longrightarrow> exit_code e argv f = 1 \<and> run_trace e argv f = [])
   \<and> (valid (parsed argv) \<and> mb (parsed argv) * MB < BUFSZ \<longrightarrow>
        exit_code e argv f = 2 \<and> run_trace e argv f = [])
   \<and> (EvOpenW False \<in> set (run_trace e argv f) \<or> EvWriteFail \<in> set (run_trace e argv f)
        \<or> EvFlush False \<in> set (run_trace e argv f) \<or> EvCloseW False \<in> set (run_trace e argv f) \<longrightarrow>
        exit_code e argv f = 3
        \<and> (\<forall>ev\<in>set (run_trace e argv f). phase_of ev \<noteq> 1 \<and> phase_of ev \<noteq> 2))
   \<and> (EvOpenR False \<in> set (run_trace e argv f) \<longrightarrow> exit_code e argv f = 10)
   \<and> ((\<exists>r. r \<noteq> 0 \<and> EvNoCache r \<in> set (run_trace e argv f)) \<longrightarrow> exit_code e argv f = 11)
   \<and> (EvNoCache 0 \<in> set (run_trace e argv f) \<and> \<not> interrupted (final_world e argv f)
        \<and> concat (reads_of (run_trace e argv f)) = [] \<longrightarrow> exit_code e argv f = 20)
   \<and> (EvNoCache 0 \<in> set (run_trace e argv f) \<and> \<not> interrupted (final_world e argv f)
        \<and> concat (reads_of (run_trace e argv f)) \<noteq> [] \<longrightarrow> exit_code e argv f = 0)
   \<and> (EvCloseW True \<in> set (run_trace e argv f) \<and> (\<forall>r. EvPurge r \<notin> set (run_trace e argv f)) \<longrightarrow>
        exit_code e argv f = 99)
   \<and> (EvNoCache 0 \<in> set (run_trace e argv f) \<and> interrupted (final_world e argv f)
        \<and> \<not> signal_at e PUnlink \<longrightarrow> exit_code e argv f = 99)
   \<and> (\<forall>r. r \<noteq> 0 \<and> EvPurge r \<in> set (run_trace e argv f) \<longrightarrow>
        exit_code e argv f = r \<and> write_result e argv f = 0
        \<and> (\<forall>ev\<in>set (run_trace e argv f). phase_of ev \<noteq> 2))
   \<and> ((\<forall>r. r \<noteq> 0 \<longrightarrow> EvPurge r \<notin> set (run_trace e argv f)) \<longrightarrow>
        exit_code e argv f \<in> {0, 1, 2, 3, 10, 11, 20, 99}
        \<and> (exit_code e argv f = 1 \<longrightarrow> \<not> valid (parsed argv))
        \<and> (exit_code e argv f = 2 \<longrightarrow> valid (parsed argv) \<and> mb (parsed argv) * MB < BUFSZ)
        \<and> (exit_code e argv f = 3 \<longrightarrow>
              EvOpenW False \<in> set (run_trace e argv f) \<or> EvWriteFail \<in> set (run_trace e argv f)
              \<or> EvFlush False \<in> set (run_trace e argv f) \<or> EvCloseW False \<in> set (run_trace e argv f))
        \<and> (exit_code e argv f = 10 \<longrightarrow> EvOpenR False \<in> set (run_trace e argv f))
        \<and> (exit_code e argv f = 11 \<longrightarrow> (\<exists>r. r \<noteq> 0 \<and> EvNoCache r \<in> set (run_trace e argv f)))
        \<and> (exit_code e argv f = 20 \<longrightarrow>
              EvNoCache 0 \<in> set (run_trace e argv f) \<and> concat (reads_of (run_trace e argv f)) = [])
        \<and> (exit_code e argv f = 0 \<longrightarrow>
              EvNoCache 0 \<in> set (run_trace e argv f) \<and> concat (reads_of (run_trace e argv f)) \<noteq> [])
        \<and> (exit_code e argv f = 99 \<longrightarrow> interrupted (final_world e argv f)))"
proof (cases "valid (parsed argv)")
  case False
  then have "exit_code e argv f = 1" "run_trace e argv f = []"
    by (simp_all add: exit_code_invalid run_trace_invalid)
  with False show ?thesis by simp
next
  case True
  note v = this
  have a: "distinct [0, 1, 2, 3, 10, 11, 20, 99 :: int]" by simp
  have b: "valid (parsed argv) \<and> mb (parsed argv) * MB < BUFSZ \<longrightarrow>
        exit_code e argv f = 2 \<and> run_trace e argv f = []"
    by (auto simp: exit_code_def run_trace_def final_world_def main_small init_world_def)
  have c: "EvOpenW False \<in> set (run_trace e argv f) \<or> EvWriteFail \<in> set (run_trace e argv f)
        \<or> EvFlush False \<in> set (run_trace e argv f) \<or> EvCloseW False \<in> set (run_trace e argv f) \<longrightarrow>
        exit_code e argv f = 3
        \<and> (\<forall>ev\<in>set (run_trace e argv f). phase_of ev \<noteq> 1 \<and> phase_of ev \<noteq> 2)"
    using v by (cases rule: run_cases [where e = e and f = f]) auto
  have d: "EvOpenR False \<in> set (run_trace e argv f) \<longrightarrow> exit_code e argv f = 10"
    using v by (cases rule: run_cases [where e = e and f = f]) auto
  have e': "(\<exists>r. r \<noteq> 0 \<and> EvNoCache r \<in> set (run_trace e argv f)) \<longrightarrow> exit_code e argv f = 11"
    using v by (cases rule: run_cases [where e = e and f = f]) auto
  have f': "EvNoCache 0 \<in> set (run_trace e argv f) \<and> \<not> interrupted (final_world e argv f)
        \<and> concat (reads_of (run_trace e argv f)) = [] \<longrightarrow> exit_code e argv f = 20"
  proof (use v in \<open>cases rule: run_cases [where e = e and f = f]\<close>)
    case (reading cs tl I)
    have "reads_of (run_trace e argv f) = cs"
      using reading(6) by (auto simp: reading(5))
    with reading(9,10) show ?thesis by auto
  qed auto
  have g: "EvNoCache 0 \<in> set (run_trace e argv f) \<and> \<not> interrupted (final_world e argv f)
        \<and> concat (reads_of (run_trace e argv f)) \<noteq> [] \<longrightarrow> exit_code e argv f = 0"
  proof (use v in \<open>cases rule: run_cases [where e = e and f = f]\<close>)
    case (reading cs tl I)
    have "reads_of (run_trace e argv f) = cs"
      using reading(6) by (auto simp: reading(5))
    with reading(9,10) show ?thesis by auto
  qed auto
  have h: "EvCloseW True \<in> set (run_trace e argv f) \<and> (\<forall>r. EvPurge r \<notin> set (run_trace e argv f)) \<longrightarrow>
        exit_code e argv f = 99"
    using v by (cases rule: run_cases [where e = e and f = f]) auto
  have i: "EvNoCache 0 \<in> set (run_trace e argv f) \<and> interrupted (final_world e argv f)
        \<and> \<not> signal_at e PUnlink \<longrightarrow> exit_code e argv f = 99"
    using v by (cases rule: run_cases [where e = e and f = f]) auto
  have j: "\<forall>r. r \<noteq> 0 \<and> EvPurge r \<in> set (run_trace e argv f) \<longrightarrow>
        exit_code e argv f = r \<and> write_result e argv f = 0
        \<and> (\<forall>ev\<in>set (run_trace e argv f). phase_of ev \<noteq> 2)"
    using v by (cases rule: run_cases [where e = e and f = f]) auto
  have k: "(\<forall>r. r \<noteq> 0 \<longrightarrow> EvPurge r \<notin> set (run_trace e argv f)) \<longrightarrow>
        exit_code e argv f \<in> {0, 1, 2, 3, 10, 11, 20, 99}
        \<and> (exit_code e argv f = 1 \<longrightarrow> \<not> valid (parsed argv))
        \<and> (exit_code e argv f = 2 \<longrightarrow> valid (parsed argv) \<and> mb (parsed argv) * MB < BUFSZ)
        \<and> (exit_code e argv f = 3 \<longrightarrow>
              EvOpenW False \<in> set (run_trace e argv f) \<or> EvWriteFail \<in> set (run_trace e argv f)
              \<or> EvFlush False \<in> set (run_trace e argv f) \<or> EvCloseW False \<in> set (run_trace e argv f))
        \<and> (exit_code e argv f = 10 \<longrightarrow> EvOpenR False \<in> set (run_trace e argv f))
        \<and> (exit_code e argv f = 11 \<longrightarrow> (\<exists>r. r \<noteq> 0 \<and> EvNoCache r \<in> set (run_trace e argv f)))
        \<and> (exit_code e argv f = 20 \<longrightarrow>
              EvNoCache 0 \<in> set (run_trace e argv f) \<and> concat (reads_of (run_trace e argv f)) = [])
        \<and> (exit_code e argv f = 0 \<longrightarrow>
              EvNoCache 0 \<in> set (run_trace e argv f) \<and> concat (reads_of (run_trace e argv f)) \<noteq> [])
        \<and> (exit_code e argv f = 99 \<longrightarrow> interrupted (final_world e argv f))"
  proof (use v in \<open>cases rule: run_cases [where e = e and f = f]\<close>)
    case small
    then show ?thesis using v by simp
  next
    case open_fail
    then show ?thesis by simp
  next
    case (write_err k evs)
    then show ?thesis by auto
  next
    case (write_int k)
    then show ?thesis by simp
  next
    case purge_fail
    then show ?thesis by auto
  next
    case ropen_fail
    then show ?thesis by simp
  next
    case fcntl_fail
    then show ?thesis by auto
  next
    case (reading cs tl I)
    have r: "reads_of (run_trace e argv f) = cs"
      using reading(6) by (auto simp: reading(5))
    have n: "EvNoCache 0 \<in> set (run_trace e argv f)" by (simp add: reading(5))
    show ?thesis
    proof (cases I)
      case True
      with reading(8,9) have "exit_code e argv f = 99" "interrupted (final_world e argv f)"
        by simp_all
      then show ?thesis by simp
    next
      case False
      with reading(8,10) have "exit_code e argv f = (if concat cs \<noteq> [] then 0 else 20)"
        by simp
      then show ?thesis using n r by auto
    qed
  qed
  from v a b c d e' f' g h i j k show ?thesis by blast
qed

theorem exit_codes_witness:
  "exit_code quiet_env [''sbench''] Map.empty = 1
   \<and> exit_code quiet_env [''sbench'', ''/tmp/t1'', ''17592186044416''] Map.empty = 2
   \<and> exit_code (quiet_env\<lparr>wopen_fails := True\<rparr>) [''sbench'', ''/tmp/t1'', ''2''] Map.empty = 3
   \<and> exit_code (quiet_env\<lparr>ropen_fails := True\<rparr>) [''sbench'', ''/tmp/t1'', ''2''] Map.empty = 10
   \<and> exit_code (quiet_env\<lparr>fcntl_res := - 1\<rparr>) [''sbench'', ''/tmp/t1'', ''2''] Map.empty = 11
   \<and> exit_code (quiet_env\<lparr>read_fails := (\<lambda>k. k = 0)\<rparr>) [''sbench'', ''/tmp/t1'', ''2''] Map.empty = 20
   \<and> exit_code (quiet_env\<lparr>signal_at := (\<lambda>pt. pt = PWCheck 0)\<rparr>)
        [''sbench'', ''/tmp/t1'', ''2''] Map.empty = 99
   \<and> exit_code quiet_env [''sbench'', ''/tmp/t1'', ''2''] Map.empty = 0
   \<and> exit_code (quiet_env\<lparr>purge_res := 7\<rparr>) [''sbench'', ''/tmp/t1'', ''2''] Map.empty = 7
   \<and> interrupted (final_world (quiet_env\<lparr>signal_at := (\<lambda>pt. pt = PWCheck 0)\<rparr>)
        [''sbench'', ''/tmp/t1'', ''2''] Map.empty)"
proof -
  let ?A = "[''sbench'', ''/tmp/t1'', ''2'']"
  let ?B = "[''sbench'', ''/tmp/t1'', ''17592186044416'']"
  have h1: "\<not> valid (parsed [''sbench''])" by (simp add: parsed_valid_iff)
  have c1: "exit_code quiet_env [''sbench''] Map.empty = 1"
    using exit_codes [of "[''sbench'']" quiet_env Map.empty,
        THEN conjunct2, THEN conjunct1] h1
    by simp
  have h2: "valid (parsed ?B) \<and> mb (parsed ?B) * MB < BUFSZ"
    using wrap_small by (simp add: parsed_wrap)
  have c2: "exit_code quiet_env ?B Map.empty = 2"
    using exit_codes [of ?B quiet_env Map.empty,
        THEN conjunct2, THEN conjunct2, THEN conjunct1] h2
    by simp
  have h3: "EvOpenW False \<in> set (run_trace (quiet_env\<lparr>wopen_fails := True\<rparr>) ?A Map.empty)"
    by (simp add: run_trace_def final_world_def main_open_fail [OF two_valid two_size] init_world_def)
  have c3: "exit_code (quiet_env\<lparr>wopen_fails := True\<rparr>) ?A Map.empty = 3"
    using exit_codes [of ?A "quiet_env\<lparr>wopen_fails := True\<rparr>" Map.empty,
        THEN conjunct2, THEN conjunct2, THEN conjunct2, THEN conjunct1] h3
    by simp
  have "write_result (quiet_env\<lparr>ropen_fails := True\<rparr>) ?A Map.empty = 0"
    by (rule write_result_clean [OF two_size]) simp_all
  then have h4: "EvOpenR False \<in> set (run_trace (quiet_env\<lparr>ropen_fails := True\<rparr>) ?A Map.empty)"
    using run_ropen_fail [OF two_valid, of "quiet_env\<lparr>ropen_fails := True\<rparr>" Map.empty] by simp
  have c4: "exit_code (quiet_env\<lparr>ropen_fails := True\<rparr>) ?A Map.empty = 10"
    using exit_codes [of ?A "quiet_env\<lparr>ropen_fails := True\<rparr>" Map.empty,
        THEN conjunct2, THEN conjunct2, THEN conjunct2, THEN conjunct2, THEN conjunct1] h4
    by simp
  have "write_result (quiet_env\<lparr>fcntl_res := - 1\<rparr>) ?A Map.empty = 0"
    by (rule write_result_clean [OF two_size]) simp_all
  then have h5: "EvNoCache (- 1) \<in> set (run_trace (quiet_env\<lparr>fcntl_res := - 1\<rparr>) ?A Map.empty)"
    using run_fcntl_fail [OF two_valid, of "quiet_env\<lparr>fcntl_res := - 1\<rparr>" Map.empty] by simp
  have "(- 1 :: int) \<noteq> 0" by simp
  with h5 have "\<exists>r. r \<noteq> 0 \<and> EvNoCache r \<in> set (run_trace (quiet_env\<lparr>fcntl_res := - 1\<rparr>) ?A Map.empty)"
    by blast
  then have c5: "exit_code (quiet_env\<lparr>fcntl_res := - 1\<rparr>) ?A Map.empty = 11"
    using exit_codes [of ?A "quiet_env\<lparr>fcntl_res := - 1\<rparr>" Map.empty,
        THEN conjunct2, THEN conjunct2, THEN conjunct2, THEN conjunct2, THEN conjunct2, THEN conjunct1]
    by blast
  have "write_result (quiet_env\<lparr>read_fails := (\<lambda>k. k = 0)\<rparr>) ?A Map.empty = 0"
    by (rule write_result_clean [OF two_size]) simp_all
  then have h6: "EvNoCache 0 \<in> set (run_trace (quiet_env\<lparr>read_fails := (\<lambda>k. k = 0)\<rparr>) ?A Map.empty)
      \<and> \<not> interrupted (final_world (quiet_env\<lparr>read_fails := (\<lambda>k. k = 0)\<rparr>) ?A Map.empty)
      \<and> concat (reads_of (run_trace (quiet_env\<lparr>read_fails := (\<lambda>k. k = 0)\<rparr>) ?A Map.empty)) = []"
    using run_no_data [OF two_valid, of "quiet_env\<lparr>read_fails := (\<lambda>k. k = 0)\<rparr>" Map.empty] by simp
  have c6: "exit_code (quiet_env\<lparr>read_fails := (\<lambda>k. k = 0)\<rparr>) ?A Map.empty = 20"
    using exit_codes [of ?A "quiet_env\<lparr>read_fails := (\<lambda>k. k = 0)\<rparr>" Map.empty,
        THEN conjunct2, THEN conjunct2, THEN conjunct2, THEN conjunct2, THEN conjunct2, THEN conjunct2, THEN conjunct1] h6
    by simp
  have "write_result (quiet_env\<lparr>signal_at := (\<lambda>pt. pt = PWCheck 0)\<rparr>) ?A Map.empty = 99"
    by (rule write_result_signal0 [OF two_size]) simp_all
  then have h7: "EvCloseW True \<in> set (run_trace (quiet_env\<lparr>signal_at := (\<lambda>pt. pt = PWCheck 0)\<rparr>) ?A Map.empty)
     \<and> (\<forall>r. EvPurge r \<notin> set (run_trace (quiet_env\<lparr>signal_at := (\<lambda>pt. pt = PWCheck 0)\<rparr>) ?A Map.empty))"
    using run_write_interrupted [OF two_valid, of "quiet_env\<lparr>signal_at := (\<lambda>pt. pt = PWCheck 0)\<rparr>" Map.empty]
    by simp
  have c7: "exit_code (quiet_env\<lparr>signal_at := (\<lambda>pt. pt = PWCheck 0)\<rparr>) ?A Map.empty = 99"
    using exit_codes [of ?A "quiet_env\<lparr>signal_at := (\<lambda>pt. pt = PWCheck 0)\<rparr>" Map.empty,
        THEN conjunct2, THEN conjunct2, THEN conjunct2, THEN conjunct2, THEN conjunct2, THEN conjunct2, THEN conjunct2, THEN conjunct2, THEN conjunct1] h7
    by simp
  have m: "main quiet_env ?A Map.empty =
     (0, (parsed ?A)\<lparr>outfileCreated := False\<rparr>,
      \<lparr>fs = Map.empty(outfile (parsed ?A) := None), interrupted = False,
       trace = EvOpenW True # replicate (nbufs (parsed ?A)) (EvWrite (gen_buf quiet_env))
          @ [EvFlush True, EvCloseW True, EvPurge 0, EvOpenR True, EvNoCache 0]
          @ map EvRead (replicate (nbufs (parsed ?A)) (gen_buf quiet_env))
          @ [EvRead [], EvCloseR, EvUnlink True],
       cerr = [MsgRemoved (outfile (parsed ?A))]\<rparr>)"
    by (rule main_clean [OF two_valid two_size]) simp_all
  have r2: "replicate 2 (gen_buf quiet_env) = [gen_buf quiet_env, gen_buf quiet_env]"
    by (simp add: numeral_2_eq_2)
  have h8: "EvNoCache 0 \<in> set (run_trace quiet_env ?A Map.empty)
      \<and> \<not> interrupted (final_world quiet_env ?A Map.empty)
      \<and> concat (reads_of (run_trace quiet_env ?A Map.empty)) \<noteq> []"
    using gen_buf_nonempty [of quiet_env]
    by (simp add: run_trace_def final_world_def m two_nbufs r2)
  have c8: "exit_code quiet_env ?A Map.empty = 0"
    using exit_codes [of ?A quiet_env Map.empty,
        THEN conjunct2, THEN conjunct2, THEN conjunct2, THEN conjunct2, THEN conjunct2, THEN conjunct2, THEN conjunct2, THEN conjunct1] h8
    by simp
  have "write_result (quiet_env\<lparr>purge_res := 7\<rparr>) ?A Map.empty = 0"
    by (rule write_result_clean [OF two_size]) simp_all
  then have "EvPurge 7 \<in> set (run_trace (quiet_env\<lparr>purge_res := 7\<rparr>) ?A Map.empty)"
    using run_purge_fail [OF two_valid, of "quiet_env\<lparr>purge_res := 7\<rparr>" Map.empty] by simp
  then have h9: "(7 :: int) \<noteq> 0 \<and> EvPurge 7 \<in> set (run_trace (quiet_env\<lparr>purge_res := 7\<rparr>) ?A Map.empty)"
    by simp
  have c9: "exit_code (quiet_env\<lparr>purge_res := 7\<rparr>) ?A Map.empty = 7"
    using exit_codes [of ?A "quiet_env\<lparr>purge_res := 7\<rparr>" Map.empty,
        THEN conjunct2, THEN conjunct2, THEN conjunct2, THEN conjunct2, THEN conjunct2, THEN conjunct2, THEN conjunct2, THEN conjunct2, THEN conjunct2, THEN conjunct2, THEN conjunct1, THEN spec [of _ 7]] h9
    by simp
  have h10: "\<forall>r. r \<noteq> 0 \<longrightarrow>
      EvPurge r \<notin> set (run_trace (quiet_env\<lparr>signal_at := (\<lambda>pt. pt = PWCheck 0)\<rparr>) ?A Map.empty)"
    using h7 by blast
  have c10: "interrupted (final_world (quiet_env\<lparr>signal_at := (\<lambda>pt. pt = PWCheck 0)\<rparr>) ?A Map.empty)"
    using exit_codes [of ?A "quiet_env\<lparr>signal_at := (\<lambda>pt. pt = PWCheck 0)\<rparr>" Map.empty,
        THEN conjunct2, THEN conjunct2, THEN conjunct2, THEN conjunct2, THEN conjunct2, THEN conjunct2, THEN conjunct2, THEN conjunct2, THEN conjunct2, THEN conjunct2, THEN conjunct2, THEN mp, OF h10] c7
    by simp
  from c1 c2 c3 c4 c5 c6 c7 c8 c9 c10 show ?thesis by blast
qed

theorem exit_codes_purge_counterexample:
  "write_result (quiet_env\<lparr>purge_res := 3\<rparr>) [''sbench'', ''/tmp/t1'', ''2''] Map.empty = 0
   \<and> exit_code (quiet_env\<lparr>purge_res := 3\<rparr>) [''sbench'', ''/tmp/t1'', ''2''] Map.empty = 3
   \<and> EvOpenW False \<notin> set (run_trace (quiet_env\<lparr>purge_res := 3\<rparr>) [''sbench'', ''/tmp/t1'', ''2''] Map.empty)
   \<and> EvWriteFail \<notin> set (run_trace (quiet_env\<lparr>purge_res := 3\<rparr>) [''sbench'', ''/tmp/t1'', ''2''] Map.empty)
   \<and> EvFlush False \<notin> set (run_trace (quiet_env\<lparr>purge_res := 3\<rparr>) [''sbench'', ''/tmp/t1'', ''2''] Map.empty)
   \<and> EvCloseW False \<notin> set (run_trace (quiet_env\<lparr>purge_res := 3\<rparr>) [''sbench'', ''/tmp/t1'', ''2''] Map.empty)
   \<and> write_result (quiet_env\<lparr>purge_res := 99\<rparr>) [''sbench'', ''/tmp/t1'', ''2''] Map.empty = 0
   \<and> exit_code (quiet_env\<lparr>purge_res := 99\<rparr>) [''sbench'', ''/tmp/t1'', ''2''] Map.empty = 99
   \<and> \<not> interrupted (final_world (quiet_env\<lparr>purge_res := 99\<rparr>) [''sbench'', ''/tmp/t1'', ''2''] Map.empty)"
proof -
  let ?A = "[''sbench'', ''/tmp/t1'', ''2'']"
  let ?E = "quiet_env\<lparr>purge_res := 3\<rparr>"
  let ?G = "quiet_env\<lparr>purge_res := 99\<rparr>"
  have w3: "write_result ?E ?A Map.empty = 0"
    by (rule write_result_clean [OF two_size]) simp_all
  have p3: "purge_res ?E \<noteq> 0" by simp
  from run_purge_fail [OF two_valid w3 p3] have
    x3: "exit_code ?E ?A Map.empty = 3"
    and t3: "run_trace ?E ?A Map.empty =
       EvOpenW True # replicate (nbufs (parsed ?A)) (EvWrite (gen_buf ?E))
         @ [EvFlush True, EvCloseW True, EvPurge 3, EvUnlink True]"
    by simp_all
  have n3: "EvOpenW False \<notin> set (run_trace ?E ?A Map.empty)"
    "EvWriteFail \<notin> set (run_trace ?E ?A Map.empty)"
    "EvFlush False \<notin> set (run_trace ?E ?A Map.empty)"
    "EvCloseW False \<notin> set (run_trace ?E ?A Map.empty)"
    by (auto simp: t3)
  have w99: "write_result ?G ?A Map.empty = 0"
    by (rule write_result_clean [OF two_size]) simp_all
  have p99: "purge_res ?G \<noteq> 0" by simp
  from run_purge_fail [OF two_valid w99 p99] have x99: "exit_code ?G ?A Map.empty = 99"
    by simp
  have i99: "\<not> interrupted (final_world ?G ?A Map.empty)"
    by (rule run_purge_fail_quiet [OF two_valid two_size]) simp_all
  from w3 x3 n3 w99 x99 i99 show ?thesis by blast
qed

text \<open>
  C6, as amended. When \<^verbatim>\<open>p.mb * MB\<close>, computed in \<^verbatim>\<open>size_t\<close>, is below the
  buffer size, the program returns 2 (not the usage value 1) without making any call:
  the trace is empty, \<^verbatim>\<open>outfileCreated\<close> stays false and the file system is exactly
  as it was. So the output file exists afterwards only if it existed before.
\<close>

theorem invalid_size_before_io:
  assumes "valid (parsed argv)" and "mb (parsed argv) * MB < BUFSZ"
  shows "exit_code e argv f = 2 \<and> exit_code e argv f \<noteq> 1
     \<and> run_trace e argv f = []
     \<and> \<not> outfileCreated (final_context e argv f)
     \<and> fs (final_world e argv f) = f
     \<and> (f (outfile (parsed argv)) = None \<longrightarrow> fs (final_world e argv f) (outfile (parsed argv)) = None)
     \<and> cerr (final_world e argv f) = [MsgInvalidSize (mb (parsed argv) * MB)]"
  by (simp add: exit_code_def run_trace_def final_world_def final_context_def
        main_small [OF assms] init_world_def)

theorem invalid_size_before_io_witness:
  "valid (parsed [''sbench'', ''/tmp/t1'', ''17592186044416''])
   \<and> mb (parsed [''sbench'', ''/tmp/t1'', ''17592186044416'']) * MB < BUFSZ
   \<and> exit_code quiet_env [''sbench'', ''/tmp/t1'', ''17592186044416''] Map.empty = 2
   \<and> run_trace quiet_env [''sbench'', ''/tmp/t1'', ''17592186044416''] Map.empty = []
   \<and> fs (final_world quiet_env [''sbench'', ''/tmp/t1'', ''17592186044416''] Map.empty) ''/tmp/t1'' = None"
  using invalid_size_before_io [of "[''sbench'', ''/tmp/t1'', ''17592186044416'']" quiet_env Map.empty]
    wrap_small
  by (simp add: parsed_wrap)

theorem invalid_size_file_counterexample:
  "valid (parsed [''sbench'', ''/tmp/t1'', ''17592186044416''])
   \<and> mb (parsed [''sbench'', ''/tmp/t1'', ''17592186044416'']) * MB < BUFSZ
   \<and> exit_code quiet_env [''sbench'', ''/tmp/t1'', ''17592186044416''] [''/tmp/t1'' \<mapsto> [1]] = 2
   \<and> fs (final_world quiet_env [''sbench'', ''/tmp/t1'', ''17592186044416''] [''/tmp/t1'' \<mapsto> [1]])
        ''/tmp/t1'' = Some [1]"
proof -
  have v: "valid (parsed [''sbench'', ''/tmp/t1'', ''17592186044416''])"
    by (simp add: parsed_wrap)
  have s: "mb (parsed [''sbench'', ''/tmp/t1'', ''17592186044416'']) * MB < BUFSZ"
    using wrap_small by (simp add: parsed_wrap)
  show ?thesis
    using v s by (simp add: exit_code_def final_world_def main_small [OF v s] init_world_def)
qed

text \<open>
  C7, as amended. When the write phase returns 0, the purge command returns 0, the file
  opens for reading, \<^verbatim>\<open>fcntl\<close> returns 0, no \<^verbatim>\<open>read\<close> fails and the run does not end
  as interrupted, the program returns 0, the bytes delivered by the \<^verbatim>\<open>read\<close> calls are
  exactly the bytes written, in order, and their number is \<open>nbufs * BUFSZ\<close>: the number of
  buffers \<^verbatim>\<open>p.mb * MB / BUFSZ\<close> of \<^verbatim>\<open>size_t\<close> arithmetic times the buffer size, which is
  the requested size when it is below \<open>2 ^ 44\<close> megabytes.
\<close>

theorem read_back_round_trip:
  assumes v: "valid (parsed argv)" and w0: "write_result e argv f = 0"
    and pr: "purge_res e = 0" and ro: "\<not> ropen_fails e" and fc: "fcntl_res e = 0"
    and rd: "\<forall>k. \<not> read_fails e k" and ni: "exit_code e argv f \<noteq> 99"
  shows "exit_code e argv f = 0
     \<and> concat (reads_of (run_trace e argv f)) = concat (writes_of (run_trace e argv f))
     \<and> writes_of (run_trace e argv f) = replicate (nbufs (parsed argv)) (gen_buf e)
     \<and> length (concat (reads_of (run_trace e argv f))) = nbufs (parsed argv) * unat BUFSZ
     \<and> nbufs (parsed argv) = ((unat (mb (parsed argv)) * 2 ^ 20) mod 2 ^ 64) div 2 ^ 20
     \<and> (unat (mb (parsed argv)) < 2 ^ 44 \<longrightarrow>
          length (concat (reads_of (run_trace e argv f))) = unat (mb (parsed argv)) * 2 ^ 20)"
  using v
proof (cases rule: run_cases [where e = e and f = f])
  case small
  with w0 show ?thesis
    by (simp add: write_result_def doWrite_small)
next
  case open_fail
  with w0 show ?thesis by simp
next
  case (write_err k evs)
  with w0 show ?thesis by simp
next
  case (write_int k)
  with ni show ?thesis by simp
next
  case purge_fail
  with pr show ?thesis by simp
next
  case ropen_fail
  with ro show ?thesis by simp
next
  case fcntl_fail
  with fc show ?thesis by simp
next
  case (reading cs tl I)
  let ?M = "nbufs (parsed argv)"
  let ?buf = "gen_buf e"
  from reading(8) ni have nI: "\<not> I" by simp
  with reading(11) rd have cs: "concat cs = concat (replicate ?M ?buf)" and tl: "tl = []"
    by simp_all
  have wr: "writes_of (run_trace e argv f) = replicate ?M ?buf"
    using reading(6) by (auto simp: reading(5))
  have rds: "reads_of (run_trace e argv f) = cs"
    using tl by (simp add: reading(5))
  have len: "length (concat cs) = ?M * unat BUFSZ"
    by (simp add: cs length_concat_replicate length_gen_buf)
  have "0 < ?M"
  proof -
    have "\<not> mb (parsed argv) * MB < BUFSZ"
      using w0 by (auto simp: write_result_def doWrite_small)
    then show ?thesis by (rule nbufs_pos)
  qed
  with len BUFSZ_pos have "0 < length (concat cs)" by simp
  then have "concat cs \<noteq> []" by (rule length_greater_0_conv [THEN iffD1])
  with reading(10) nI have ex: "exit_code e argv f = 0" by simp
  have a: "concat (reads_of (run_trace e argv f)) = concat (writes_of (run_trace e argv f))"
    by (simp add: rds wr cs)
  have b: "length (concat (reads_of (run_trace e argv f))) = ?M * unat BUFSZ"
    by (simp add: rds len)
  have c: "unat (mb (parsed argv)) < 2 ^ 44 \<longrightarrow>
          length (concat (reads_of (run_trace e argv f))) = unat (mb (parsed argv)) * 2 ^ 20"
    using b by (simp add: nbufs_no_wrap unat_BUFSZ)
  from ex a wr b c nbufs_eq [of "parsed argv"] show ?thesis by blast
qed

theorem read_back_round_trip_witness:
  "valid (parsed [''sbench'', ''/tmp/t1'', ''2''])
   \<and> write_result quiet_env [''sbench'', ''/tmp/t1'', ''2''] Map.empty = 0
   \<and> exit_code quiet_env [''sbench'', ''/tmp/t1'', ''2''] Map.empty = 0
   \<and> concat (reads_of (run_trace quiet_env [''sbench'', ''/tmp/t1'', ''2''] Map.empty))
       = concat (writes_of (run_trace quiet_env [''sbench'', ''/tmp/t1'', ''2''] Map.empty))
   \<and> length (concat (reads_of (run_trace quiet_env [''sbench'', ''/tmp/t1'', ''2''] Map.empty)))
       = 2 * 2 ^ 20"
proof -
  let ?A = "[''sbench'', ''/tmp/t1'', ''2'']"
  have w0: "write_result quiet_env ?A Map.empty = 0"
    by (rule write_result_clean [OF two_size]) simp_all
  have "main quiet_env ?A Map.empty =
     (0, (parsed ?A)\<lparr>outfileCreated := False\<rparr>,
      \<lparr>fs = Map.empty(outfile (parsed ?A) := None), interrupted = False,
       trace = EvOpenW True # replicate (nbufs (parsed ?A)) (EvWrite (gen_buf quiet_env))
          @ [EvFlush True, EvCloseW True, EvPurge 0, EvOpenR True, EvNoCache 0]
          @ map EvRead (replicate (nbufs (parsed ?A)) (gen_buf quiet_env))
          @ [EvRead [], EvCloseR, EvUnlink True],
       cerr = [MsgRemoved (outfile (parsed ?A))]\<rparr>)"
    by (rule main_clean [OF two_valid two_size]) simp_all
  then have ex: "exit_code quiet_env ?A Map.empty = 0"
    by (simp add: exit_code_def)
  then have n99: "exit_code quiet_env ?A Map.empty \<noteq> 99" by simp
  have small: "unat (mb (parsed ?A)) < 2 ^ 44" by (simp add: parsed_two)
  have u: "unat (mb (parsed ?A)) = 2" by (simp add: parsed_two)
  from read_back_round_trip [OF two_valid w0 _ _ _ _ n99] small
  show ?thesis using two_valid w0
    by (simp add: u length_concat_replicate length_gen_buf unat_BUFSZ)
qed

theorem read_error_counterexample:
  "valid (parsed [''sbench'', ''/tmp/t1'', ''2''])
   \<and> write_result (quiet_env\<lparr>read_fails := (\<lambda>k. k = Suc 0)\<rparr>) [''sbench'', ''/tmp/t1'', ''2''] Map.empty = 0
   \<and> purge_res (quiet_env\<lparr>read_fails := (\<lambda>k. k = Suc 0)\<rparr>) = 0
   \<and> fcntl_res (quiet_env\<lparr>read_fails := (\<lambda>k. k = Suc 0)\<rparr>) = 0
   \<and> (\<forall>pt. \<not> signal_at (quiet_env\<lparr>read_fails := (\<lambda>k. k = Suc 0)\<rparr>) pt)
   \<and> exit_code (quiet_env\<lparr>read_fails := (\<lambda>k. k = Suc 0)\<rparr>) [''sbench'', ''/tmp/t1'', ''2''] Map.empty = 0
   \<and> writes_of (run_trace (quiet_env\<lparr>read_fails := (\<lambda>k. k = Suc 0)\<rparr>)
        [''sbench'', ''/tmp/t1'', ''2''] Map.empty)
       = [gen_buf (quiet_env\<lparr>read_fails := (\<lambda>k. k = Suc 0)\<rparr>),
          gen_buf (quiet_env\<lparr>read_fails := (\<lambda>k. k = Suc 0)\<rparr>)]
   \<and> reads_of (run_trace (quiet_env\<lparr>read_fails := (\<lambda>k. k = Suc 0)\<rparr>)
        [''sbench'', ''/tmp/t1'', ''2''] Map.empty)
       = [gen_buf (quiet_env\<lparr>read_fails := (\<lambda>k. k = Suc 0)\<rparr>)]
   \<and> length (concat (reads_of (run_trace (quiet_env\<lparr>read_fails := (\<lambda>k. k = Suc 0)\<rparr>)
        [''sbench'', ''/tmp/t1'', ''2''] Map.empty))) = 1048576
   \<and> length (concat (writes_of (run_trace (quiet_env\<lparr>read_fails := (\<lambda>k. k = Suc 0)\<rparr>)
        [''sbench'', ''/tmp/t1'', ''2''] Map.empty))) = 2097152"
proof -
  let ?A = "[''sbench'', ''/tmp/t1'', ''2'']"
  let ?e = "quiet_env\<lparr>read_fails := (\<lambda>k. k = Suc 0)\<rparr>"
  have w0: "write_result ?e ?A Map.empty = 0"
    by (rule write_result_clean [OF two_size]) simp_all
  have m: "0 < Suc 0" "Suc 0 \<le> nbufs (parsed ?A)" by (simp_all add: two_nbufs)
  have run: "exit_code ?e ?A Map.empty = 0
     \<and> run_trace ?e ?A Map.empty =
          EvOpenW True # replicate (nbufs (parsed ?A)) (EvWrite (gen_buf ?e))
          @ [EvFlush True, EvCloseW True, EvPurge 0, EvOpenR True, EvNoCache 0]
          @ map EvRead (replicate (Suc 0) (gen_buf ?e))
          @ [EvReadErr, EvCloseR, EvUnlink (\<not> unlink_fails ?e)]"
    by (rule main_read_error [OF two_valid two_size _ _ _ _ _ _ _ _ m]) simp_all
  have r2: "replicate 2 (gen_buf ?e) = [gen_buf ?e, gen_buf ?e]"
    by (simp add: numeral_2_eq_2)
  have wr: "writes_of (run_trace ?e ?A Map.empty) = [gen_buf ?e, gen_buf ?e]"
    using run by (simp add: two_nbufs r2)
  have rds: "reads_of (run_trace ?e ?A Map.empty) = [gen_buf ?e]"
    using run by simp
  have l1: "length (concat (reads_of (run_trace ?e ?A Map.empty))) = 1048576"
    by (simp only: rds) (simp add: length_gen_buf unat_BUFSZ)
  have l2: "length (concat (writes_of (run_trace ?e ?A Map.empty))) = 2097152"
    by (simp only: wr) (simp add: length_gen_buf unat_BUFSZ)
  have env: "purge_res ?e = 0" "fcntl_res ?e = 0" "\<forall>pt. \<not> signal_at ?e pt"
    by simp_all
  from two_valid w0 env run wr rds l1 l2 show ?thesis by blast
qed

text \<open>
  C8. A command line with no path argument, or whose path is empty or begins with
  \<open>-\<close>, makes the program return 1 after printing the usage text with the banner; no
  call is made and the file system is as before.
\<close>

theorem usage_error_no_io:
  assumes "length argv < 2 \<or> argv ! 1 = [] \<or> hd (argv ! 1) = CHR ''-''"
  shows "exit_code e argv f = 1 \<and> run_trace e argv f = []
     \<and> fs (final_world e argv f) = f
     \<and> \<not> outfileCreated (final_context e argv f)
     \<and> cerr (final_world e argv f) =
         [MsgBanner, MsgUsage (if argv \<noteq> [] then hd argv else ''wrdata''), MsgBlank]"
proof -
  from assms have nv: "\<not> valid (parsed argv)"
    by (auto simp: parsed_valid_iff)
  show ?thesis
    using assms cerr_parse_invalid [OF nv, of f]
    by (simp add: exit_code_def run_trace_def final_world_def final_context_def
          main_invalid [OF nv] init_world_def)
qed

theorem usage_error_no_io_witness:
  "exit_code quiet_env [''sbench''] Map.empty = 1
   \<and> run_trace quiet_env [''sbench''] Map.empty = []
   \<and> exit_code quiet_env [''sbench'', ''-x'', ''4''] Map.empty = 1
   \<and> cerr (final_world quiet_env [''sbench'', ''''] Map.empty) =
        [MsgBanner, MsgUsage ''sbench'', MsgBlank]"
  using usage_error_no_io [of "[''sbench'']" quiet_env Map.empty]
    usage_error_no_io [of "[''sbench'', ''-x'', ''4'']" quiet_env Map.empty]
    usage_error_no_io [of "[''sbench'', '''']" quiet_env Map.empty]
  by simp

text \<open>
  C9. Without a size argument the size is 2048, and a command line of the program name
  and an acceptable path is accepted. When a size is given and its text does not
  convert, converts to a value that is not positive, or has characters left after the
  digits, the program returns 1 (neither 0 nor the invalid-size value 2), makes no call,
  leaves the file system alone and never prints the invalid-size message. When moreover
  the path is acceptable, so that the size is what \<^verbatim>\<open>parseArgs\<close> rejects, the
  diagnostic is the parse message followed by the usage line, without the banner.
\<close>

theorem size_argument:
  "(length argv \<le> 2 \<longrightarrow> mb (parsed argv) = 2048)
   \<and> (length argv = 2 \<and> argv ! 1 \<noteq> [] \<and> hd (argv ! 1) \<noteq> CHR ''-'' \<longrightarrow> valid (parsed argv))
   \<and> (2 < length argv
        \<and> ((\<exists>err. stol (argv ! 2) = Inl err)
           \<or> (\<exists>v pos. stol (argv ! 2) = Inr (v, pos) \<and> (v \<le> 0 \<or> pos < length (argv ! 2))))
      \<longrightarrow> exit_code e argv f = 1 \<and> exit_code e argv f \<noteq> 0 \<and> exit_code e argv f \<noteq> 2
        \<and> run_trace e argv f = [] \<and> fs (final_world e argv f) = f
        \<and> (\<forall>n. MsgInvalidSize n \<notin> set (cerr (final_world e argv f)))
        \<and> (argv ! 1 \<noteq> [] \<and> hd (argv ! 1) \<noteq> CHR ''-'' \<longrightarrow>
             (\<exists>err. cerr (final_world e argv f) = [MsgParseFail err, MsgUsage (hd argv)])
             \<and> MsgBanner \<notin> set (cerr (final_world e argv f))))"
proof (intro conjI impI)
  assume "length argv \<le> 2"
  then show "mb (parsed argv) = 2048"
    by (auto simp: parsed_def parseArgs_def Let_def Context_default_def)
next
  assume "length argv = 2 \<and> argv ! 1 \<noteq> [] \<and> hd (argv ! 1) \<noteq> CHR ''-''"
  then show "valid (parsed argv)" by (simp add: parsed_valid_iff)
next
  assume bad: "2 < length argv
     \<and> ((\<exists>err. stol (argv ! 2) = Inl err)
        \<or> (\<exists>v pos. stol (argv ! 2) = Inr (v, pos) \<and> (v \<le> 0 \<or> pos < length (argv ! 2))))"
  then have "\<not> size_ok (argv ! 2)"
    by (auto simp: size_ok_def)
  with bad have nv: "\<not> valid (parsed argv)"
    by (simp add: parsed_valid_iff)
  have m: "main e argv f = (1, parsed argv, snd (parseArgs argv (init_world f)))"
    by (rule main_invalid [OF nv])
  have c: "cerr (final_world e argv f) =
    (if length argv < 2 \<or> argv ! 1 = [] \<or> hd (argv ! 1) = CHR ''-''
       then [MsgBanner, MsgUsage (if argv \<noteq> [] then hd argv else ''wrdata''), MsgBlank]
     else [MsgParseFail (case stol (argv ! 2) of Inl err \<Rightarrow> err
                          | Inr (v, pos) \<Rightarrow> if v \<le> 0 then NotPositive else ExtraChars),
           MsgUsage (hd argv)])"
    using cerr_parse_invalid [OF nv, of f] by (simp add: final_world_def m)
  show "exit_code e argv f = 1" by (simp add: exit_code_def m)
  then show "exit_code e argv f \<noteq> 0" "exit_code e argv f \<noteq> 2" by simp_all
  show "run_trace e argv f = []" by (simp add: run_trace_def final_world_def m init_world_def)
  show "fs (final_world e argv f) = f" by (simp add: final_world_def m init_world_def)
  show "\<forall>n. MsgInvalidSize n \<notin> set (cerr (final_world e argv f))" by (simp add: c)
  {
    assume ok: "argv ! 1 \<noteq> [] \<and> hd (argv ! 1) \<noteq> CHR ''-''"
    with bad have c': "cerr (final_world e argv f) =
       [MsgParseFail (case stol (argv ! 2) of Inl err \<Rightarrow> err
                      | Inr (v, pos) \<Rightarrow> if v \<le> 0 then NotPositive else ExtraChars),
        MsgUsage (hd argv)]"
      by (simp add: c)
    then show "\<exists>err. cerr (final_world e argv f) = [MsgParseFail err, MsgUsage (hd argv)]"
      by blast
    from c' show "MsgBanner \<notin> set (cerr (final_world e argv f))" by simp
  }
qed

theorem size_argument_witness:
  "mb (parsed [''sbench'', ''/tmp/t1'']) = 2048
   \<and> valid (parsed [''sbench'', ''/tmp/t1''])
   \<and> stol ''abc'' = Inl InvalidArgument
   \<and> exit_code quiet_env [''sbench'', ''/tmp/t1'', ''abc''] Map.empty = 1
   \<and> run_trace quiet_env [''sbench'', ''/tmp/t1'', ''abc''] Map.empty = []
   \<and> MsgBanner \<notin> set (cerr (final_world quiet_env [''sbench'', ''/tmp/t1'', ''abc''] Map.empty))
   \<and> stol ''0'' = Inr (0, 1)
   \<and> exit_code quiet_env [''sbench'', ''/tmp/t1'', ''0''] Map.empty = 1
   \<and> stol ''12abc'' = Inr (12, 2)
   \<and> exit_code quiet_env [''sbench'', ''/tmp/t1'', ''12abc''] Map.empty = 1
   \<and> MsgBanner \<notin> set (cerr (final_world quiet_env [''sbench'', ''/tmp/t1'', ''12abc''] Map.empty))"
  using size_argument [of "[''sbench'', ''/tmp/t1'']" quiet_env Map.empty]
    size_argument [of "[''sbench'', ''/tmp/t1'', ''abc'']" quiet_env Map.empty]
    size_argument [of "[''sbench'', ''/tmp/t1'', ''0'']" quiet_env Map.empty]
    size_argument [of "[''sbench'', ''/tmp/t1'', ''12abc'']" quiet_env Map.empty]
  by (simp add: stol_defs)

text \<open>
  C10. The byte count is \<^verbatim>\<open>p.mb * MB\<close> in \<^verbatim>\<open>size_t\<close>, that is modulo
  \<open>2 ^ 64\<close>. The size 17592186044416 = \<open>2 ^ 44\<close> is accepted by the argument parser,
  gives a count of 0 and makes the program return 2 without any call; the size
  \<open>2 ^ 44 + 1\<close> is accepted, gives a loop bound of one buffer, and a run in which every
  call succeeds returns 0 after writing a single buffer of 1048576 bytes.
\<close>

theorem size_wraps:
  "unat (mb p * MB) = (unat (mb p) * 2 ^ 20) mod 2 ^ 64
   \<and> valid (parsed [''sbench'', ''/tmp/t1'', ''17592186044416''])
   \<and> mb (parsed [''sbench'', ''/tmp/t1'', ''17592186044416'']) = 2 ^ 44
   \<and> mb (parsed [''sbench'', ''/tmp/t1'', ''17592186044416'']) * MB = 0
   \<and> exit_code e [''sbench'', ''/tmp/t1'', ''17592186044416''] f = 2
   \<and> run_trace e [''sbench'', ''/tmp/t1'', ''17592186044416''] f = []
   \<and> valid (parsed [''sbench'', ''/tmp/t1'', ''17592186044417''])
   \<and> mb (parsed [''sbench'', ''/tmp/t1'', ''17592186044417'']) = 2 ^ 44 + 1
   \<and> mb (parsed [''sbench'', ''/tmp/t1'', ''17592186044417'']) * MB = 1048576
   \<and> nbufs (parsed [''sbench'', ''/tmp/t1'', ''17592186044417'']) = 1
   \<and> exit_code quiet_env [''sbench'', ''/tmp/t1'', ''17592186044417''] f = 0
   \<and> writes_of (run_trace quiet_env [''sbench'', ''/tmp/t1'', ''17592186044417''] f)
        = [gen_buf quiet_env]
   \<and> length (gen_buf quiet_env) = 1048576"
proof -
  let ?A = "[''sbench'', ''/tmp/t1'', ''17592186044416'']"
  let ?B = "[''sbench'', ''/tmp/t1'', ''17592186044417'']"
  have vA: "valid (parsed ?A)" by (simp add: parsed_wrap)
  have sA: "mb (parsed ?A) * MB < BUFSZ" using wrap_small by (simp add: parsed_wrap)
  have a1: "mb (parsed ?A) = 2 ^ 44" by (simp add: parsed_wrap)
  have a2: "mb (parsed ?A) * MB = 0" using wrap_zero by (simp add: parsed_wrap)
  have a3: "exit_code e ?A f = 2" "run_trace e ?A f = []"
    by (simp_all add: exit_code_def run_trace_def final_world_def main_small [OF vA sA] init_world_def)
  have vB: "valid (parsed ?B)" by (simp add: parsed_wrap1)
  have sB: "\<not> mb (parsed ?B) * MB < BUFSZ" using wrap1_not_small by (simp add: parsed_wrap1)
  have b1: "mb (parsed ?B) = 2 ^ 44 + 1" by (simp add: parsed_wrap1)
  have b2: "mb (parsed ?B) * MB = 1048576" using wrap1_bytes by (simp add: parsed_wrap1)
  have mB: "main quiet_env ?B f =
     (0, (parsed ?B)\<lparr>outfileCreated := False\<rparr>,
      \<lparr>fs = f(outfile (parsed ?B) := None), interrupted = False,
       trace = EvOpenW True # replicate (nbufs (parsed ?B)) (EvWrite (gen_buf quiet_env))
          @ [EvFlush True, EvCloseW True, EvPurge 0, EvOpenR True, EvNoCache 0]
          @ map EvRead (replicate (nbufs (parsed ?B)) (gen_buf quiet_env))
          @ [EvRead [], EvCloseR, EvUnlink True],
       cerr = [MsgRemoved (outfile (parsed ?B))]\<rparr>)"
    by (rule main_clean [OF vB sB]) simp_all
  have b3: "exit_code quiet_env ?B f = 0"
    by (simp add: exit_code_def mB)
  have b4: "writes_of (run_trace quiet_env ?B f) = [gen_buf quiet_env]"
    by (simp add: run_trace_def final_world_def mB wrap1_nbufs)
  have b5: "length (gen_buf quiet_env) = 1048576"
    by (simp add: length_gen_buf unat_BUFSZ)
  from unat_bytes [of p] vA a1 a2 a3 vB b1 b2 wrap1_nbufs b3 b4 b5 show ?thesis
    by blast
qed

theorem size_wraps_witness:
  "unat (mb (parsed [''sbench'', ''/tmp/t1'', ''17592186044416'']) * MB) = 0
   \<and> exit_code quiet_env [''sbench'', ''/tmp/t1'', ''17592186044416''] Map.empty = 2
   \<and> nbufs (parsed [''sbench'', ''/tmp/t1'', ''17592186044417'']) = 1
   \<and> exit_code quiet_env [''sbench'', ''/tmp/t1'', ''17592186044417''] Map.empty = 0"
  using size_wraps [of "parsed [''sbench'', ''/tmp/t1'', ''17592186044416'']" quiet_env Map.empty]
  by (simp add: parsed_wrap wrap_zero)

end
